theory Spec2Isabelle
  imports Main
begin


section \<open>ehforwarderbot/utils.py\<close>

text \<open>
  A shallow embedding of \<^verbatim>\<open>ehforwarderbot/utils.py\<close>: the emoji lookup, the
  \<^verbatim>\<open>extra\<close> decorator and the five path functions. Path strings are
  \<^typ>\<open>string\<close> (the bytes of the path); the process environment, the password
  database, the coordinator's profile and the directory tree are fields of one record that
  every path function takes and returns.
\<close>

subsection \<open>Emoji\<close>

text \<open>
  A Python \<^verbatim>\<open>str\<close> is a sequence of code points; each emoji constant is one
  code point.
\<close>

type_synonym unicode = "nat list"

definition GROUP_EMOJI :: unicode where "GROUP_EMOJI = [0x1F465]"
definition USER_EMOJI :: unicode where "USER_EMOJI = [0x1F464]"
definition SYSTEM_EMOJI :: unicode where "SYSTEM_EMOJI = [0x1F4BB]"
definition UNKNOWN_EMOJI :: unicode where "UNKNOWN_EMOJI = [0x2753]"
definition LINK_EMOJI :: unicode where "LINK_EMOJI = [0x1F517]"

text \<open>
  Modelled from the spec: \<^verbatim>\<open>constants.ChatType\<close> is not part of the sources at
  hand; the spec names its members User, Group and System.
\<close>

datatype ChatType = User | Group | System

text \<open>
  The argument of \<^verbatim>\<open>get_source_emoji\<close> is not checked by Python: it is a member
  of the enumeration or any other object (here an opaque tag). An enumeration member is
  equal to itself only.
\<close>

datatype chat_arg = Member ChatType | Other nat

definition get_source_emoji :: "chat_arg \<Rightarrow> unicode" where
  "get_source_emoji t =
     (if t = Member User then USER_EMOJI
      else if t = Member Group then GROUP_EMOJI
      else if t = Member System then SYSTEM_EMOJI
      else UNKNOWN_EMOJI)"

subsection \<open>The decorator extra\<close>







subsection \<open>Library functions on path strings\<close>

text \<open>\<^verbatim>\<open>posixpath.join(a, *p)\<close>: a component that starts with the separator
  replaces what was built so far; otherwise it is appended, after a separator unless the
  path is empty or already ends with one.\<close>

definition startswith_sep :: "string \<Rightarrow> bool" where
  "startswith_sep b = (case b of [] \<Rightarrow> False | c # _ \<Rightarrow> c = CHR ''/'')"

definition endswith_sep :: "string \<Rightarrow> bool" where
  "endswith_sep p = (p \<noteq> [] \<and> last p = CHR ''/'')"

definition join_step :: "string \<Rightarrow> string \<Rightarrow> string" where
  "join_step path b =
     (if startswith_sep b then b
      else if path = [] \<or> endswith_sep path then path @ b
      else path @ CHR ''/'' # b)"

definition join :: "string \<Rightarrow> string list \<Rightarrow> string" where
  "join a p = foldl join_step a p"

text \<open>\<^verbatim>\<open>s.rstrip('/')\<close>.\<close>

definition rstrip_sep :: "string \<Rightarrow> string" where
  "rstrip_sep s = rev (dropWhile (\<lambda>c. c = CHR ''/'') (rev s))"

datatype error = KeyError | FileNotFoundError | FileExistsError | NotADirectoryError

datatype node = Dir | File

type_synonym path = "string list"

text \<open>
  The state the path functions read and change:
  \<^item> \<open>environ\<close> is \<^verbatim>\<open>os.environ\<close>;
  \<^item> \<open>pw_user\<close> is the password entry of the process's user, name and home directory
    (\<^verbatim>\<open>pwd.getpwuid(os.getuid())\<close>), if there is one;
  \<^item> \<open>pw_home\<close> gives the home directory of a named user (\<^verbatim>\<open>pwd.getpwnam\<close>);
  \<^item> \<open>profile\<close> is \<^verbatim>\<open>coordinator.profile\<close>, which these functions only read;
  \<^item> \<open>cwd\<close> is the working directory, as the list of names from the root;
  \<^item> \<open>nodes\<close> is the directory tree: what exists at each absolute location (the list of
    names from the root), a directory or a regular file. Links, permissions and limits
    are not modelled;
  \<^item> \<open>visited\<close> records every location a file-system call has looked at or created,
    latest first.
\<close>

record world =
  environ :: "string \<rightharpoonup> string"
  pw_user :: "(string \<times> string) option"
  pw_home :: "string \<rightharpoonup> string"
  profile :: string
  cwd :: path
  nodes :: "path \<rightharpoonup> node"
  visited :: "path list"

text \<open>\<^verbatim>\<open>posixpath.expanduser\<close>: a leading \<^verbatim>\<open>~\<close> is replaced by
  \<^verbatim>\<open>$HOME\<close> (or the password entry's directory when \<^verbatim>\<open>HOME\<close> is not in
  the environment), a leading \<^verbatim>\<open>~name\<close> by that user's directory; the path is
  returned unchanged when the directory is not known.\<close>

definition expanduser :: "world \<Rightarrow> string \<Rightarrow> string" where
  "expanduser w path =
     (case path of
        [] \<Rightarrow> path
      | c # rest \<Rightarrow>
          if c \<noteq> CHR ''~'' then path
          else
            let name = takeWhile (\<lambda>x. x \<noteq> CHR ''/'') rest;
                suffix = dropWhile (\<lambda>x. x \<noteq> CHR ''/'') rest;
                userhome =
                  (if name = []
                   then (case environ w ''HOME'' of
                           Some h \<Rightarrow> Some h
                         | None \<Rightarrow> map_option snd (pw_user w))
                   else pw_home w name)
            in (case userhome of
                  None \<Rightarrow> path
                | Some h \<Rightarrow>
                    (let r = rstrip_sep h @ suffix in if r = [] then ''/'' else r)))"

text \<open>\<^verbatim>\<open>getpass.getuser()\<close>: the first non-empty one of four environment
  variables, else the name in the password entry; it raises when there is none.\<close>

fun first_env :: "world \<Rightarrow> string list \<Rightarrow> string option" where
  "first_env w [] = None"
| "first_env w (n # ns) =
     (case environ w n of
        Some v \<Rightarrow> if v \<noteq> [] then Some v else first_env w ns
      | None \<Rightarrow> first_env w ns)"

definition getuser :: "world \<Rightarrow> error + string" where
  "getuser w =
     (case first_env w [''LOGNAME'', ''USER'', ''LNAME'', ''USERNAME''] of
        Some u \<Rightarrow> Inr u
      | None \<Rightarrow> (case pw_user w of Some (n, d) \<Rightarrow> Inr n | None \<Rightarrow> Inl KeyError))"

subsection \<open>The directory tree and os.makedirs\<close>

text \<open>The names of a path string, split at every separator (an empty string has one
  empty name).\<close>

fun components :: "string \<Rightarrow> string list" where
  "components [] = [[]]"
| "components (c # cs) =
     (if c = CHR ''/'' then [] # components cs
      else (case components cs of
              [] \<Rightarrow> [[c]]
            | x # xs \<Rightarrow> (c # x) # xs))"

text \<open>Entering a name from a directory: an empty name and \<^verbatim>\<open>.\<close> stay,
  \<^verbatim>\<open>..\<close> goes to the parent (the root is its own parent).\<close>

definition enter :: "path \<Rightarrow> string \<Rightarrow> path" where
  "enter cur c =
     (if c = [] \<or> c = ''.'' then cur
      else if c = ''..'' then butlast cur
      else cur @ [c])"

definition start :: "world \<Rightarrow> string \<Rightarrow> path" where
  "start w name = (if startswith_sep name then [] else cwd w)"

text \<open>Path resolution as the kernel does it: every name is entered from a directory.\<close>

fun walk :: "(path \<rightharpoonup> node) \<Rightarrow> path \<Rightarrow> string list \<Rightarrow> path option" where
  "walk fs cur [] = Some cur"
| "walk fs cur (c # cs) =
     (if fs cur = Some Dir then walk fs (enter cur c) cs else None)"

definition isdir :: "world \<Rightarrow> string \<Rightarrow> bool" where
  "isdir w name =
     (name \<noteq> [] \<and>
      (case walk (nodes w) (start w name) (components name) of
         None \<Rightarrow> False
       | Some p \<Rightarrow> nodes w p = Some Dir))"

text \<open>
  \<^verbatim>\<open>os.makedirs(name, exist_ok=True)\<close>, by its documented contract: the leaf
  directory and every intermediate one that is missing is created, and a directory that is
  already there is no error. The model resolves the path name by name and creates what is
  missing on the way; a regular file on the way is an error, and what was created before
  the error stays. The library's documentation warns that its implementation gets confused
  when the elements to create include \<^verbatim>\<open>..\<close>; the model follows the contract
  there too, as \<^verbatim>\<open>mkdir -p\<close> does.
\<close>

definition visit :: "path \<Rightarrow> world \<Rightarrow> world" where
  "visit p w = w\<lparr>visited := p # visited w\<rparr>"

definition mkdir_at :: "path \<Rightarrow> world \<Rightarrow> world" where
  "mkdir_at p w = w\<lparr>nodes := (nodes w)(p \<mapsto> Dir)\<rparr>"

fun mkwalk :: "path \<Rightarrow> string list \<Rightarrow> world \<Rightarrow> error option \<times> world" where
  "mkwalk cur [] w =
     (case nodes w cur of
        Some Dir \<Rightarrow> (None, visit cur w)
      | Some File \<Rightarrow> (Some FileExistsError, visit cur w)
      | None \<Rightarrow> (Some FileNotFoundError, visit cur w))"
| "mkwalk cur (c # cs) w =
     (case nodes w cur of
        Some Dir \<Rightarrow>
          (if nodes w (enter cur c) = None
           then mkwalk (enter cur c) cs (mkdir_at (enter cur c) (visit cur w))
           else mkwalk (enter cur c) cs (visit cur w))
      | Some File \<Rightarrow>
          (Some (if list_all (\<lambda>x. x = []) (c # cs) then FileExistsError
                 else NotADirectoryError), visit cur w)
      | None \<Rightarrow> (Some FileNotFoundError, visit cur w))"

definition makedirs :: "string \<Rightarrow> world \<Rightarrow> error option \<times> world" where
  "makedirs name w =
     (if name = [] then (Some FileNotFoundError, w)
      else mkwalk (start w name) (components name) w)"

subsection \<open>The path functions\<close>

text \<open>Python's truth value of \<^verbatim>\<open>os.environ.get(k, None)\<close> and of an optional
  string argument: \<^verbatim>\<open>None\<close> and the empty string are false.\<close>

definition truthy :: "string option \<Rightarrow> bool" where
  "truthy v = (case v of None \<Rightarrow> False | Some s \<Rightarrow> s \<noteq> [])"

text \<open>\<^verbatim>\<open>os.makedirs(p, exist_ok=True); return r\<close>.\<close>

definition makedirs_return :: "string \<Rightarrow> string \<Rightarrow> world \<Rightarrow> (error + string) \<times> world" where
  "makedirs_return p r w =
     (case makedirs p w of
        (Some e, w') \<Rightarrow> (Inl e, w')
      | (None, w') \<Rightarrow> (Inr r, w'))"

definition get_base_path :: "world \<Rightarrow> (error + string) \<times> world" where
  "get_base_path w =
     (let base_path = environ w ''EFB_DATA_PATH'' in
      if truthy base_path
      then (case getuser w of
              Inl e \<Rightarrow> (Inl e, w)
            | Inr user \<Rightarrow>
                (let base_path = join (the base_path) [user, ''''] in
                 makedirs_return base_path base_path w))
      else (let base_path = expanduser w ''~/.ehforwarderbot/'' in
            makedirs_return base_path base_path w))"

definition get_data_path :: "string \<Rightarrow> world \<Rightarrow> (error + string) \<times> world" where
  "get_data_path channel_id w =
     (let profile = profile w in
      case get_base_path w of
        (Inl e, w1) \<Rightarrow> (Inl e, w1)
      | (Inr base_path, w1) \<Rightarrow>
          (let data_path = join base_path [profile, channel_id, ''''] in
           makedirs_return data_path data_path w1))"

text \<open>The two parameters have defaults: \<^verbatim>\<open>channel_id=None\<close> and
  \<^verbatim>\<open>ext='yaml'\<close>; \<open>None\<close> for \<open>ext\<close> is the call without that argument.\<close>

definition get_config_path :: "string option \<Rightarrow> string option \<Rightarrow> world \<Rightarrow> (error + string) \<times> world" where
  "get_config_path channel_id ext_arg w =
     (let ext = (case ext_arg of None \<Rightarrow> ''yaml'' | Some e \<Rightarrow> e) in
      case get_base_path w of
        (Inl e, w1) \<Rightarrow> (Inl e, w1)
      | (Inr base_path, w1) \<Rightarrow>
          (let profile = profile w1 in
           if truthy channel_id
           then (case get_data_path (the channel_id) w1 of
                   (Inl e, w2) \<Rightarrow> (Inl e, w2)
                 | (Inr config_path, w2) \<Rightarrow>
                     makedirs_return config_path (join config_path [''config.'' @ ext]) w2)
           else (let config_path = join base_path [profile] in
                 makedirs_return config_path (join config_path [''config.'' @ ext]) w1)))"

definition get_cache_path :: "string \<Rightarrow> world \<Rightarrow> (error + string) \<times> world" where
  "get_cache_path channel w =
     (let profile = profile w;
          base_path = environ w ''EFB_CACHE_PATH'' in
      if truthy base_path
      then (case getuser w of
              Inl e \<Rightarrow> (Inl e, w)
            | Inr user \<Rightarrow>
                (let base_path = join (the base_path) [user, profile, channel, ''''] in
                 makedirs_return base_path base_path w))
      else (let base_path =
                  expanduser w
                    (join (expanduser w ''~/.ehforwarderbot/.cache/'') [profile, channel, ''''])
            in makedirs_return base_path base_path w))"

definition get_custom_channel_path :: "world \<Rightarrow> (error + string) \<times> world" where
  "get_custom_channel_path w =
     (case get_base_path w of
        (Inl e, w1) \<Rightarrow> (Inl e, w1)
      | (Inr base_path, w1) \<Rightarrow>
          (let channel_path = join base_path [''plugins''] in
           makedirs_return channel_path channel_path w1))"

subsection \<open>Notions used in the proofs\<close>

text \<open>What the path functions only read.\<close>

definition static :: "world \<Rightarrow> (string \<rightharpoonup> string) \<times> (string \<times> string) option \<times> (string \<rightharpoonup> string) \<times> string \<times> path" where
  "static w = (environ w, pw_user w, pw_home w, profile w, cwd w)"

text \<open>\<open>grows w w'\<close>: the later state \<open>w'\<close> has everything \<open>w\<close> had, unchanged, and
  whatever is new is a directory.\<close>

definition grows :: "world \<Rightarrow> world \<Rightarrow> bool" where
  "grows w w' =
     (static w' = static w \<and>
      (\<forall>q. nodes w q \<noteq> None \<longrightarrow> nodes w' q = nodes w q) \<and>
      (\<forall>q. nodes w q = None \<longrightarrow> nodes w' q = None \<or> nodes w' q = Some Dir))"


definition ensured :: "world \<Rightarrow> world \<Rightarrow> bool" where
  "ensured w w' =
     (grows w w' \<and>
      (\<exists>new. visited w' = new @ visited w \<and>
         (\<forall>q \<in> set new. nodes w' q = Some Dir) \<and>
         (\<forall>q. nodes w q = None \<and> nodes w' q \<noteq> None \<longrightarrow> q \<in> set new)))"

text \<open>The strings that \<^verbatim>\<open>get_base_path\<close> and \<^verbatim>\<open>get_cache_path\<close> compute
  before they touch the directory tree.\<close>

definition base_string :: "world \<Rightarrow> error + string" where
  "base_string w =
     (if truthy (environ w ''EFB_DATA_PATH'')
      then (case getuser w of
              Inl e \<Rightarrow> Inl e
            | Inr user \<Rightarrow> Inr (join (the (environ w ''EFB_DATA_PATH'')) [user, '''']))
      else Inr (expanduser w ''~/.ehforwarderbot/''))"

definition cache_string :: "string \<Rightarrow> world \<Rightarrow> error + string" where
  "cache_string channel w =
     (if truthy (environ w ''EFB_CACHE_PATH'')
      then (case getuser w of
              Inl e \<Rightarrow> Inl e
            | Inr user \<Rightarrow>
                Inr (join (the (environ w ''EFB_CACHE_PATH'')) [user, profile w, channel, '''']))
      else Inr (expanduser w
                  (join (expanduser w ''~/.ehforwarderbot/.cache/'') [profile w, channel, ''''])))"

subsection \<open>Example states\<close>

text \<open>A machine with the user alice, whose home directory is \<^verbatim>\<open>/home/alice\<close>, the
  profile \<^verbatim>\<open>default\<close>, and a directory tree that holds the root directory only; the
  environment is the argument.\<close>

definition alice_world :: "(string \<rightharpoonup> string) \<Rightarrow> world" where
  "alice_world env =
     \<lparr>environ = env, pw_user = Some (''alice'', ''/home/alice''),
      pw_home = [''alice'' \<mapsto> ''/home/alice''], profile = ''default'', cwd = [],
      nodes = [[] \<mapsto> Dir], visited = []\<rparr>"

definition env_scenario :: "string \<rightharpoonup> string" where
  "env_scenario = [''EFB_DATA_PATH'' \<mapsto> ''/tmp/efb'', ''EFB_CACHE_PATH'' \<mapsto> ''/tmp/cache'',
                   ''USER'' \<mapsto> ''alice'', ''HOME'' \<mapsto> ''/home/alice'']"

definition env_plain :: "string \<rightharpoonup> string" where
  "env_plain = [''USER'' \<mapsto> ''alice'', ''HOME'' \<mapsto> ''/home/alice'']"

definition env_empty_override :: "string \<rightharpoonup> string" where
  "env_empty_override = [''EFB_DATA_PATH'' \<mapsto> '''', ''EFB_CACHE_PATH'' \<mapsto> '''',
                         ''USER'' \<mapsto> ''alice'', ''HOME'' \<mapsto> ''/home/alice'']"

text \<open>The state with one environment variable removed.\<close>

definition unsetenv :: "string \<Rightarrow> world \<Rightarrow> world" where
  "unsetenv k w = w\<lparr>environ := (environ w)(k := None)\<rparr>"

text \<open>A directory tree without regular files in which the root and the working directory
  exist.\<close>

definition clear :: "world \<Rightarrow> bool" where
  "clear w = ((\<forall>q. nodes w q \<noteq> Some File) \<and> nodes w [] = Some Dir \<and> nodes w (cwd w) = Some Dir)"


subsection \<open>Facts about join and expanduser\<close>

lemma join_Nil: "join a [] = a"
  by (simp add: join_def)

lemma join_Cons: "join a (b # bs) = join (join_step a b) bs"
  by (simp add: join_def)

lemma join_snoc: "join a (bs @ [b]) = join_step (join a bs) b"
  by (simp add: join_def)

lemma join_step_empty: "join_step p [] = (if p = [] \<or> endswith_sep p then p else p @ ''/'')"
  by (simp add: join_step_def startswith_sep_def)

lemma join_step_nonempty: "p \<noteq> [] \<Longrightarrow> join_step p b \<noteq> []"
  by (auto simp: join_step_def startswith_sep_def split: list.splits)

lemma join_nonempty: "a \<noteq> [] \<Longrightarrow> join a bs \<noteq> []"
  by (induction bs arbitrary: a) (simp_all add: join_Nil join_Cons join_step_nonempty)

lemma endswith_join_step_empty: "p \<noteq> [] \<Longrightarrow> endswith_sep (join_step p [])"
  by (simp add: join_step_empty endswith_sep_def)

lemma endswith_join_empty: "a \<noteq> [] \<Longrightarrow> endswith_sep (join a (bs @ ['''']))"
  by (simp add: join_snoc endswith_join_step_empty join_nonempty)


lemma last_dropWhile:
  "xs \<noteq> [] \<Longrightarrow> \<not> P (last xs) \<Longrightarrow> dropWhile P xs \<noteq> [] \<and> last (dropWhile P xs) = last xs"
  by (induction xs) (auto split: if_splits)

lemma endswith_expanduser:
  assumes e: "endswith_sep path"
  shows "endswith_sep (expanduser w path)"
proof (cases path)
  case Nil
  with e show ?thesis by (simp add: endswith_sep_def)
next
  case (Cons c rest)
  show ?thesis
  proof (cases "c = CHR ''~''")
    case False
    with Cons e show ?thesis by (simp add: expanduser_def)
  next
    case True
    with Cons e have r: "rest \<noteq> []" "last rest = CHR ''/''"
      by (auto simp: endswith_sep_def split: if_splits)
    then have s: "dropWhile (\<lambda>x. x \<noteq> CHR ''/'') rest \<noteq> []"
      "last (dropWhile (\<lambda>x. x \<noteq> CHR ''/'') rest) = CHR ''/''"
      using last_dropWhile [of rest "\<lambda>x. x \<noteq> CHR ''/''"] by simp_all
    with Cons True e show ?thesis
      by (auto simp: expanduser_def endswith_sep_def Let_def split: option.splits)
  qed
qed

lemma expanduser_home:
  "environ w ''HOME'' = Some h \<Longrightarrow>
   expanduser w (CHR ''~'' # CHR ''/'' # s) = rstrip_sep h @ CHR ''/'' # s"
  by (simp add: expanduser_def Let_def)


subsection \<open>Facts about the directory tree\<close>

lemma grows_refl: "grows w w"
  by (simp add: grows_def)

lemma grows_static: "grows w w' \<Longrightarrow> static w' = static w"
  by (simp add: grows_def)

lemma grows_keeps: "grows w w' \<Longrightarrow> nodes w p = Some n \<Longrightarrow> nodes w' p = Some n"
  by (simp add: grows_def)

lemma grows_trans: "grows w w1 \<Longrightarrow> grows w1 w2 \<Longrightarrow> grows w w2"
  unfolding grows_def by (metis option.distinct(1))

lemma grows_visit: "grows w (visit p w)"
  by (simp add: grows_def visit_def static_def)

lemma grows_mkdir_at: "nodes w p = None \<Longrightarrow> grows w (mkdir_at p w)"
  by (simp add: grows_def mkdir_at_def static_def)

lemma mkwalk_grows: "mkwalk cur cs w = (r, w') \<Longrightarrow> grows w w'"
proof (induction cs arbitrary: cur w)
  case Nil
  then show ?case
    by (auto simp: grows_visit split: option.splits node.splits)
next
  case (Cons c cs)
  show ?case
  proof (cases "nodes w cur")
    case None
    with Cons.prems show ?thesis by (auto simp: grows_visit)
  next
    case (Some n)
    show ?thesis
    proof (cases n)
      case File
      with Some Cons.prems show ?thesis by (auto simp: grows_visit)
    next
      case Dir
      show ?thesis
      proof (cases "nodes w (enter cur c) = None")
        case True
        with Some Dir Cons.prems
        have "mkwalk (enter cur c) cs (mkdir_at (enter cur c) (visit cur w)) = (r, w')"
          by simp
        then have "grows (mkdir_at (enter cur c) (visit cur w)) w'"
          by (rule Cons.IH)
        moreover have "grows (visit cur w) (mkdir_at (enter cur c) (visit cur w))"
          using True by (intro grows_mkdir_at) (simp add: visit_def)
        ultimately show ?thesis
          using grows_visit grows_trans by blast
      next
        case False
        with Some Dir Cons.prems
        have "mkwalk (enter cur c) cs (visit cur w) = (r, w')"
          by simp
        then have "grows (visit cur w) w'" by (rule Cons.IH)
        then show ?thesis using grows_visit grows_trans by blast
      qed
    qed
  qed
qed

lemma walk_grows:
  "grows w w' \<Longrightarrow> walk (nodes w) cur cs = Some p \<Longrightarrow> walk (nodes w') cur cs = Some p"
proof (induction cs arbitrary: cur)
  case Nil
  then show ?case by simp
next
  case (Cons c cs)
  from Cons.prems(2) have d: "nodes w cur = Some Dir" and
    r: "walk (nodes w) (enter cur c) cs = Some p"
    by (auto split: if_splits)
  from d Cons.prems(1) have "nodes w' cur = Some Dir"
    by (simp add: grows_keeps)
  with Cons.IH [OF Cons.prems(1) r] show ?case by simp
qed

lemma start_static: "static w' = static w \<Longrightarrow> start w' name = start w name"
  by (simp add: start_def static_def)

lemma isdir_grows: "grows w w' \<Longrightarrow> isdir w name \<Longrightarrow> isdir w' name"
proof -
  assume g: "grows w w'" and i: "isdir w name"
  from i obtain p where n: "name \<noteq> []"
    and p: "walk (nodes w) (start w name) (components name) = Some p"
    and d: "nodes w p = Some Dir"
    by (auto simp: isdir_def split: option.splits)
  from g have "static w' = static w"
    by (rule grows_static)
  then have s: "start w' name = start w name"
    by (rule start_static)
  from d g have d': "nodes w' p = Some Dir"
    by (simp add: grows_keeps)
  from walk_grows [OF g p] d' n s show ?thesis
    by (simp add: isdir_def)
qed

lemma mkwalk_ok_walk:
  "mkwalk cur cs w = (None, w') \<Longrightarrow>
   \<exists>p. walk (nodes w') cur cs = Some p \<and> nodes w' p = Some Dir"
proof (induction cs arbitrary: cur w)
  case Nil
  then show ?case
    by (auto simp: visit_def split: option.splits node.splits)
next
  case (Cons c cs)
  from Cons.prems have d: "nodes w cur = Some Dir"
    by (auto split: option.splits node.splits)
  from mkwalk_grows [OF Cons.prems] d have d': "nodes w' cur = Some Dir"
    by (simp add: grows_keeps)
  from Cons.prems d obtain w1 where "mkwalk (enter cur c) cs w1 = (None, w')"
    by (auto split: if_splits)
  from Cons.IH [OF this] d' show ?case by simp
qed


lemma makedirs_grows: "makedirs name w = (r, w') \<Longrightarrow> grows w w'"
  by (auto simp: makedirs_def grows_refl mkwalk_grows split: if_splits)

lemma makedirs_isdir: "makedirs name w = (None, w') \<Longrightarrow> isdir w' name"
proof -
  assume m: "makedirs name w = (None, w')"
  then have n: "name \<noteq> []" and k: "mkwalk (start w name) (components name) w = (None, w')"
    by (auto simp: makedirs_def split: if_splits)
  from mkwalk_grows [OF k] have "static w' = static w"
    by (rule grows_static)
  then have "start w' name = start w name"
    by (rule start_static)
  with mkwalk_ok_walk [OF k] n show ?thesis
    by (auto simp: isdir_def)
qed




lemma ensured_grows: "ensured w w' \<Longrightarrow> grows w w'"
  by (simp add: ensured_def)

lemma ensured_trans:
  assumes a: "ensured w w1" and b: "ensured w1 w2"
  shows "ensured w w2"
proof -
  from a obtain n1 where g1: "grows w w1" and v1: "visited w1 = n1 @ visited w"
    and d1: "\<forall>q \<in> set n1. nodes w1 q = Some Dir"
    and c1: "\<forall>q. nodes w q = None \<and> nodes w1 q \<noteq> None \<longrightarrow> q \<in> set n1"
    unfolding ensured_def by blast
  from b obtain n2 where g2: "grows w1 w2" and v2: "visited w2 = n2 @ visited w1"
    and d2: "\<forall>q \<in> set n2. nodes w2 q = Some Dir"
    and c2: "\<forall>q. nodes w1 q = None \<and> nodes w2 q \<noteq> None \<longrightarrow> q \<in> set n2"
    unfolding ensured_def by blast
  have g: "grows w w2" using g1 g2 by (rule grows_trans)
  have v: "visited w2 = (n2 @ n1) @ visited w" using v1 v2 by simp
  have d: "\<forall>q \<in> set (n2 @ n1). nodes w2 q = Some Dir"
  proof
    fix q assume "q \<in> set (n2 @ n1)"
    then consider "q \<in> set n2" | "q \<in> set n1" by auto
    then show "nodes w2 q = Some Dir"
    proof cases
      case 1
      with d2 show ?thesis by simp
    next
      case 2
      with d1 have "nodes w1 q = Some Dir" by simp
      with g2 show ?thesis by (rule grows_keeps)
    qed
  qed
  have c: "\<forall>q. nodes w q = None \<and> nodes w2 q \<noteq> None \<longrightarrow> q \<in> set (n2 @ n1)"
  proof (intro allI impI)
    fix q assume h: "nodes w q = None \<and> nodes w2 q \<noteq> None"
    show "q \<in> set (n2 @ n1)"
    proof (cases "nodes w1 q = None")
      case True
      with h c2 show ?thesis by simp
    next
      case False
      with h c1 show ?thesis by simp
    qed
  qed
  from g v d c show ?thesis unfolding ensured_def by blast
qed

lemma mkwalk_ensured_aux:
  "mkwalk cur cs w = (None, w') \<Longrightarrow>
   \<exists>new. visited w' = new @ visited w \<and> cur \<in> set new \<and>
     (\<forall>q \<in> set new. nodes w' q = Some Dir) \<and>
     (\<forall>q. nodes w q = None \<and> nodes w' q \<noteq> None \<longrightarrow> q \<in> set new)"
proof (induction cs arbitrary: cur w)
  case Nil
  then have d: "nodes w cur = Some Dir" and w': "w' = visit cur w"
    by (auto split: option.splits node.splits)
  have "visited w' = [cur] @ visited w" using w' by (simp add: visit_def)
  moreover have "nodes w' = nodes w" using w' by (simp add: visit_def)
  ultimately show ?case using d by auto
next
  case (Cons c cs)
  from Cons.prems have d: "nodes w cur = Some Dir"
    by (auto split: option.splits node.splits)
  from mkwalk_grows [OF Cons.prems] d have d': "nodes w' cur = Some Dir"
    by (simp add: grows_keeps)
  let ?nxt = "enter cur c"
  show ?case
  proof (cases "nodes w ?nxt = None")
    case True
    let ?w1 = "mkdir_at ?nxt (visit cur w)"
    from Cons.prems d True have k: "mkwalk ?nxt cs ?w1 = (None, w')" by simp
    from Cons.IH [OF k] obtain new where v: "visited w' = new @ visited ?w1"
      and m: "?nxt \<in> set new"
      and dd: "\<forall>q \<in> set new. nodes w' q = Some Dir"
      and cc: "\<forall>q. nodes ?w1 q = None \<and> nodes w' q \<noteq> None \<longrightarrow> q \<in> set new"
      by blast
    have v': "visited w' = (new @ [cur]) @ visited w"
      using v by (simp add: mkdir_at_def visit_def)
    have c1: "\<forall>q. nodes w q = None \<and> nodes w' q \<noteq> None \<longrightarrow> q \<in> set (new @ [cur])"
    proof (intro allI impI)
      fix q assume h: "nodes w q = None \<and> nodes w' q \<noteq> None"
      show "q \<in> set (new @ [cur])"
      proof (cases "q = ?nxt")
        case True
        with m show ?thesis by simp
      next
        case False
        then have "nodes ?w1 q = nodes w q" by (simp add: mkdir_at_def visit_def)
        with h cc show ?thesis by simp
      qed
    qed
    from v' dd d' c1 show ?thesis
      by (intro exI [of _ "new @ [cur]"]) auto
  next
    case False
    let ?w1 = "visit cur w"
    from Cons.prems d False have k: "mkwalk ?nxt cs ?w1 = (None, w')" by auto
    from Cons.IH [OF k] obtain new where v: "visited w' = new @ visited ?w1"
      and dd: "\<forall>q \<in> set new. nodes w' q = Some Dir"
      and cc: "\<forall>q. nodes ?w1 q = None \<and> nodes w' q \<noteq> None \<longrightarrow> q \<in> set new"
      by blast
    have v': "visited w' = (new @ [cur]) @ visited w"
      using v by (simp add: visit_def)
    have c1: "\<forall>q. nodes w q = None \<and> nodes w' q \<noteq> None \<longrightarrow> q \<in> set (new @ [cur])"
      using cc by (simp add: visit_def)
    from v' dd d' c1 show ?thesis
      by (intro exI [of _ "new @ [cur]"]) auto
  qed
qed

lemma makedirs_ensured: "makedirs name w = (None, w') \<Longrightarrow> ensured w w'"
proof -
  assume m: "makedirs name w = (None, w')"
  then have k: "mkwalk (start w name) (components name) w = (None, w')"
    by (auto simp: makedirs_def split: if_splits)
  from mkwalk_ensured_aux [OF k] makedirs_grows [OF m] show ?thesis
    unfolding ensured_def by blast
qed


subsection \<open>makedirs followed by return\<close>

lemma makedirs_return_ok:
  assumes "fst (makedirs_return p r w) = Inr x"
  shows "x = r \<and> ensured w (snd (makedirs_return p r w)) \<and> isdir (snd (makedirs_return p r w)) p"
proof -
  obtain e w' where m: "makedirs p w = (e, w')" by (cases "makedirs p w")
  with assms have e: "e = None" and x: "x = r"
    by (auto simp: makedirs_return_def split: option.splits)
  from m e have s: "snd (makedirs_return p r w) = w'"
    by (simp add: makedirs_return_def)
  from m e makedirs_ensured makedirs_isdir have "ensured w w'" "isdir w' p" by blast+
  with x s show ?thesis by simp
qed

lemma makedirs_return_grows: "grows w (snd (makedirs_return p r w))"
proof -
  obtain e w' where m: "makedirs p w = (e, w')" by (cases "makedirs p w")
  then have "snd (makedirs_return p r w) = w'"
    by (simp add: makedirs_return_def split: option.splits)
  with makedirs_grows [OF m] show ?thesis by simp
qed



subsection \<open>The path strings depend on the environment only\<close>

lemma first_env_static: "environ w' = environ w \<Longrightarrow> first_env w' ns = first_env w ns"
  by (induction ns) (simp_all cong: option.case_cong if_cong)

lemma getuser_static: "static w' = static w \<Longrightarrow> getuser w' = getuser w"
proof -
  assume s: "static w' = static w"
  then have e: "environ w' = environ w" and p: "pw_user w' = pw_user w"
    by (simp_all add: static_def)
  show ?thesis unfolding getuser_def first_env_static [OF e] p by (rule refl)
qed

lemma expanduser_static: "static w' = static w \<Longrightarrow> expanduser w' s = expanduser w s"
proof -
  assume s: "static w' = static w"
  then have e: "environ w' = environ w" and p: "pw_user w' = pw_user w"
    and h: "pw_home w' = pw_home w"
    by (simp_all add: static_def)
  show ?thesis unfolding expanduser_def e p h by (rule refl)
qed

lemma base_string_static: "static w' = static w \<Longrightarrow> base_string w' = base_string w"
proof -
  assume s: "static w' = static w"
  then have e: "environ w' = environ w" by (simp add: static_def)
  show ?thesis
    unfolding base_string_def e getuser_static [OF s] expanduser_static [OF s] by (rule refl)
qed


lemma get_base_path_form:
  "get_base_path w =
     (case base_string w of Inl e \<Rightarrow> (Inl e, w) | Inr b \<Rightarrow> makedirs_return b b w)"
  by (simp add: get_base_path_def base_string_def Let_def split: sum.splits)

lemma get_cache_path_form:
  "get_cache_path channel w =
     (case cache_string channel w of Inl e \<Rightarrow> (Inl e, w) | Inr b \<Rightarrow> makedirs_return b b w)"
  by (simp add: get_cache_path_def cache_string_def Let_def split: sum.splits)

lemma get_base_path_ok:
  assumes "fst (get_base_path w) = Inr b"
  shows "base_string w = Inr b \<and> get_base_path w = makedirs_return b b w \<and>
         ensured w (snd (get_base_path w)) \<and> isdir (snd (get_base_path w)) b"
proof -
  from assms obtain b' where s: "base_string w = Inr b'"
    by (cases "base_string w") (simp_all add: get_base_path_form)
  then have f: "get_base_path w = makedirs_return b' b' w"
    by (simp add: get_base_path_form)
  with assms makedirs_return_ok [of b' b' w b] have "b = b'" by simp
  with s f makedirs_return_ok [of b' b' w b] assms show ?thesis by simp
qed

lemma get_cache_path_ok:
  assumes "fst (get_cache_path c w) = Inr b"
  shows "cache_string c w = Inr b \<and> get_cache_path c w = makedirs_return b b w \<and>
         ensured w (snd (get_cache_path c w)) \<and> isdir (snd (get_cache_path c w)) b"
proof -
  from assms obtain b' where s: "cache_string c w = Inr b'"
    by (cases "cache_string c w") (simp_all add: get_cache_path_form)
  then have f: "get_cache_path c w = makedirs_return b' b' w"
    by (simp add: get_cache_path_form)
  with assms makedirs_return_ok [of b' b' w b] have "b = b'" by simp
  with s f makedirs_return_ok [of b' b' w b] assms show ?thesis by simp
qed

lemma get_base_path_grows: "grows w (snd (get_base_path w))"
  by (cases "base_string w") (simp_all add: get_base_path_form grows_refl makedirs_return_grows)


lemma get_data_path_form:
  "get_data_path c w =
     (case get_base_path w of
        (Inl e, w1) \<Rightarrow> (Inl e, w1)
      | (Inr b, w1) \<Rightarrow> makedirs_return (join b [profile w, c, '''']) (join b [profile w, c, '''']) w1)"
  unfolding get_data_path_def Let_def by (rule refl)







lemma get_custom_channel_path_form:
  "get_custom_channel_path w =
     (case get_base_path w of
        (Inl e, w1) \<Rightarrow> (Inl e, w1)
      | (Inr b, w1) \<Rightarrow> makedirs_return (join b [''plugins'']) (join b [''plugins'']) w1)"
  unfolding get_custom_channel_path_def Let_def by (rule refl)

lemma get_custom_channel_path_ok:
  assumes "fst (get_custom_channel_path w) = Inr p"
  shows "\<exists>b. fst (get_base_path w) = Inr b \<and> p = join b [''plugins''] \<and>
           ensured w (snd (get_custom_channel_path w)) \<and>
           isdir (snd (get_custom_channel_path w)) p \<and>
           isdir (snd (get_custom_channel_path w)) b"
proof -
  obtain r w1 where g: "get_base_path w = (r, w1)" by (cases "get_base_path w")
  with assms obtain b where r: "r = Inr b"
    by (cases r) (simp_all add: get_custom_channel_path_form)
  let ?d = "join b [''plugins'']"
  let ?w' = "snd (get_custom_channel_path w)"
  from g r have f: "get_custom_channel_path w = makedirs_return ?d ?d w1"
    by (simp add: get_custom_channel_path_form)
  from g r have fb: "fst (get_base_path w) = Inr b" by simp
  from get_base_path_ok [OF fb] g have e1: "ensured w w1" and i1: "isdir w1 b" by simp_all
  from assms f have "fst (makedirs_return ?d ?d w1) = Inr p" by simp
  from makedirs_return_ok [OF this] f
  have p: "p = ?d" and e2: "ensured w1 ?w'" and i2: "isdir ?w' ?d" by simp_all
  from e1 e2 have e: "ensured w ?w'" by (rule ensured_trans)
  from ensured_grows [OF e2] i1 have "isdir ?w' b" by (rule isdir_grows)
  with fb p e i2 show ?thesis by blast
qed


text \<open>The directory that \<^verbatim>\<open>get_config_path\<close> ensures, and the name of the file in it.\<close>

lemma get_config_path_form:
  "get_config_path channel_id ext_arg w =
     (case get_base_path w of
        (Inl e, w1) \<Rightarrow> (Inl e, w1)
      | (Inr b, w1) \<Rightarrow>
          if truthy channel_id
          then (case get_data_path (the channel_id) w1 of
                  (Inl e, w2) \<Rightarrow> (Inl e, w2)
                | (Inr d, w2) \<Rightarrow>
                    makedirs_return d
                      (join d [''config.'' @ (case ext_arg of None \<Rightarrow> ''yaml'' | Some e \<Rightarrow> e)]) w2)
          else makedirs_return (join b [profile w1])
                 (join (join b [profile w1])
                    [''config.'' @ (case ext_arg of None \<Rightarrow> ''yaml'' | Some e \<Rightarrow> e)]) w1)"
  unfolding get_config_path_def Let_def by (rule refl)




subsection \<open>Evaluation at the example states\<close>

lemmas eval_defs =
  get_base_path_def get_data_path_def get_config_path_def get_cache_path_def
  get_custom_channel_path_def makedirs_return_def makedirs_def truthy_def getuser_def
  join_def join_step_def startswith_sep_def endswith_sep_def start_def enter_def visit_def
  mkdir_at_def isdir_def expanduser_def rstrip_sep_def Let_def alice_world_def
  env_scenario_def env_plain_def env_empty_override_def

lemma base_string_endswith: "base_string w = Inr b \<Longrightarrow> endswith_sep b"
proof -
  assume b: "base_string w = Inr b"
  show ?thesis
  proof (cases "truthy (environ w ''EFB_DATA_PATH'')")
    case True
    then obtain v where v: "environ w ''EFB_DATA_PATH'' = Some v" "v \<noteq> []"
      by (auto simp: truthy_def split: option.splits)
    with b True obtain u where "b = join v ([u] @ [''''])"
      by (auto simp: base_string_def split: sum.splits)
    with v endswith_join_empty [of v "[u]"] show ?thesis by simp
  next
    case False
    with b have "b = expanduser w ''~/.ehforwarderbot/''"
      by (simp add: base_string_def)
    moreover have "endswith_sep ''~/.ehforwarderbot/''" by (simp add: endswith_sep_def)
    ultimately show ?thesis by (simp add: endswith_expanduser)
  qed
qed

lemma endswith_nonempty: "endswith_sep b \<Longrightarrow> b \<noteq> []"
  by (simp add: endswith_sep_def)



lemma join_plain:
  "v \<noteq> [] \<Longrightarrow> \<not> endswith_sep v \<Longrightarrow> u \<noteq> [] \<Longrightarrow> \<not> startswith_sep u \<Longrightarrow> \<not> endswith_sep u \<Longrightarrow>
   join v [u, ''''] = v @ ''/'' @ u @ ''/''"
  by (simp add: join_def join_step_def endswith_sep_def startswith_sep_def)


subsection \<open>Tilde expansion of a joined path\<close>

lemma rstrip_sep_prefix: "\<exists>t. h = rstrip_sep h @ t"
proof -
  have "rev h = takeWhile (\<lambda>c. c = CHR ''/'') (rev h) @ dropWhile (\<lambda>c. c = CHR ''/'') (rev h)"
    by simp
  then have "rev (rev h) =
      rev (dropWhile (\<lambda>c. c = CHR ''/'') (rev h)) @ rev (takeWhile (\<lambda>c. c = CHR ''/'') (rev h))"
    by (metis rev_append)
  then show ?thesis by (auto simp: rstrip_sep_def)
qed

lemma home_prefix_no_tilde:
  assumes "take 1 h \<noteq> ''~''"
  shows "\<exists>y ys. rstrip_sep h @ CHR ''/'' # s = y # ys \<and> y \<noteq> CHR ''~''"
proof (cases "rstrip_sep h")
  case Nil
  then show ?thesis by simp
next
  case (Cons c cs)
  with rstrip_sep_prefix [of h] obtain t where "h = (c # cs) @ t" by metis
  with assms Cons show ?thesis by auto
qed

lemma join_step_no_tilde:
  assumes "a = x # xs" and "x \<noteq> CHR ''~''"
  shows "\<exists>y ys. join_step a b = y # ys \<and> y \<noteq> CHR ''~''"
proof (cases "startswith_sep b")
  case True
  then obtain bs where "b = CHR ''/'' # bs"
    by (cases b) (auto simp: startswith_sep_def)
  with True show ?thesis by (simp add: join_step_def)
next
  case False
  with assms show ?thesis by (simp add: join_step_def)
qed

lemma join_no_tilde:
  "a = x # xs \<Longrightarrow> x \<noteq> CHR ''~'' \<Longrightarrow> \<exists>y ys. join a bs = y # ys \<and> y \<noteq> CHR ''~''"
proof (induction bs arbitrary: a x xs)
  case Nil
  then show ?case by (simp add: join_Nil)
next
  case (Cons b bs)
  from join_step_no_tilde [OF Cons.prems] obtain y ys where
    "join_step a b = y # ys" "y \<noteq> CHR ''~''" by blast
  from Cons.IH [OF this] show ?case by (simp add: join_Cons)
qed

lemma expanduser_id: "path = y # ys \<Longrightarrow> y \<noteq> CHR ''~'' \<Longrightarrow> expanduser w path = path"
  by (simp add: expanduser_def)

lemma cache_default_home:
  assumes h: "environ w ''HOME'' = Some h" and t: "take 1 h \<noteq> ''~''"
  shows "expanduser w (join (expanduser w ''~/.ehforwarderbot/.cache/'') ps)
           = join (rstrip_sep h @ ''/.ehforwarderbot/.cache/'') ps"
proof -
  have e: "expanduser w ''~/.ehforwarderbot/.cache/'' = rstrip_sep h @ ''/.ehforwarderbot/.cache/''"
    using expanduser_home [OF h, of "''.ehforwarderbot/.cache/''"] by simp
  from home_prefix_no_tilde [OF t, of "''.ehforwarderbot/.cache/''"] obtain y ys where
    "rstrip_sep h @ ''/.ehforwarderbot/.cache/'' = y # ys" "y \<noteq> CHR ''~''" by auto
  from join_no_tilde [OF this, of ps] obtain z zs where
    "join (rstrip_sep h @ ''/.ehforwarderbot/.cache/'') ps = z # zs" "z \<noteq> CHR ''~''" by blast
  then show ?thesis unfolding e by (rule expanduser_id)
qed

lemma join_plain3:
  "endswith_sep a \<Longrightarrow> x \<noteq> [] \<Longrightarrow> \<not> startswith_sep x \<Longrightarrow> \<not> endswith_sep x \<Longrightarrow>
   y \<noteq> [] \<Longrightarrow> \<not> startswith_sep y \<Longrightarrow> \<not> endswith_sep y \<Longrightarrow>
   join a [x, y, ''''] = a @ x @ ''/'' @ y @ ''/''"
  by (simp add: join_def join_step_def endswith_sep_def startswith_sep_def)

lemma join_plain4:
  "v \<noteq> [] \<Longrightarrow> \<not> endswith_sep v \<Longrightarrow> u \<noteq> [] \<Longrightarrow> \<not> startswith_sep u \<Longrightarrow> \<not> endswith_sep u \<Longrightarrow>
   x \<noteq> [] \<Longrightarrow> \<not> startswith_sep x \<Longrightarrow> \<not> endswith_sep x \<Longrightarrow>
   y \<noteq> [] \<Longrightarrow> \<not> startswith_sep y \<Longrightarrow> \<not> endswith_sep y \<Longrightarrow>
   join v [u, x, y, ''''] = v @ ''/'' @ u @ ''/'' @ x @ ''/'' @ y @ ''/''"
  by (simp add: join_def join_step_def endswith_sep_def startswith_sep_def)

lemma cache_string_endswith: "cache_string c w = Inr b \<Longrightarrow> endswith_sep b"
proof -
  assume b: "cache_string c w = Inr b"
  show ?thesis
  proof (cases "truthy (environ w ''EFB_CACHE_PATH'')")
    case True
    then obtain v where v: "environ w ''EFB_CACHE_PATH'' = Some v" "v \<noteq> []"
      by (auto simp: truthy_def split: option.splits)
    with b True obtain u where "b = join v ([u, profile w, c] @ [''''])"
      by (auto simp: cache_string_def split: sum.splits)
    with v endswith_join_empty [of v "[u, profile w, c]"] show ?thesis by simp
  next
    case False
    let ?i = "expanduser w ''~/.ehforwarderbot/.cache/''"
    from False b have "b = expanduser w (join ?i ([profile w, c] @ ['''']))"
      by (simp add: cache_string_def)
    moreover have "endswith_sep ''~/.ehforwarderbot/.cache/''" by (simp add: endswith_sep_def)
    then have "endswith_sep ?i" by (rule endswith_expanduser)
    then have "?i \<noteq> []" by (rule endswith_nonempty)
    then have "endswith_sep (join ?i ([profile w, c] @ ['''']))" by (rule endswith_join_empty)
    ultimately show ?thesis by (simp add: endswith_expanduser)
  qed
qed

subsection \<open>Removing an environment variable\<close>

lemma mkwalk_environ:
  "mkwalk cur cs (w\<lparr>environ := E\<rparr>) =
     (fst (mkwalk cur cs w), (snd (mkwalk cur cs w))\<lparr>environ := E\<rparr>)"
proof (induction cs arbitrary: cur w)
  case Nil
  show ?case by (simp add: visit_def split: option.splits node.splits)
next
  case (Cons c cs)
  let ?n = "enter cur c"
  have v: "visit cur (w\<lparr>environ := E\<rparr>) = (visit cur w)\<lparr>environ := E\<rparr>"
    by (simp add: visit_def)
  have m: "mkdir_at ?n ((visit cur w)\<lparr>environ := E\<rparr>) = (mkdir_at ?n (visit cur w))\<lparr>environ := E\<rparr>"
    by (simp add: mkdir_at_def)
  show ?case
  proof (cases "nodes w cur")
    case None
    then show ?thesis by (simp add: v)
  next
    case (Some k)
    show ?thesis
    proof (cases k)
      case File
      with Some show ?thesis by (simp add: v)
    next
      case Dir
      show ?thesis
      proof (cases "nodes w ?n = None")
        case True
        with Some Dir have
          "mkwalk cur (c # cs) (w\<lparr>environ := E\<rparr>) = mkwalk ?n cs ((mkdir_at ?n (visit cur w))\<lparr>environ := E\<rparr>)"
          "mkwalk cur (c # cs) w = mkwalk ?n cs (mkdir_at ?n (visit cur w))"
          by (simp_all add: v m)
        then show ?thesis by (simp only: Cons.IH)
      next
        case False
        with Some Dir have
          "mkwalk cur (c # cs) (w\<lparr>environ := E\<rparr>) = mkwalk ?n cs ((visit cur w)\<lparr>environ := E\<rparr>)"
          "mkwalk cur (c # cs) w = mkwalk ?n cs (visit cur w)"
          by (auto simp: v)
        then show ?thesis by (simp only: Cons.IH)
      qed
    qed
  qed
qed

lemma makedirs_return_environ:
  "makedirs_return p r (w\<lparr>environ := E\<rparr>) =
     (fst (makedirs_return p r w), (snd (makedirs_return p r w))\<lparr>environ := E\<rparr>)"
proof -
  have s: "start (w\<lparr>environ := E\<rparr>) p = start w p" by (simp add: start_def)
  show ?thesis
    by (simp add: makedirs_return_def makedirs_def s mkwalk_environ split: prod.splits option.splits)
qed

lemma makedirs_return_keeps_environ: "environ (snd (makedirs_return p r w)) = environ w"
  using grows_static [OF makedirs_return_grows, of p r w] by (simp add: static_def)

lemma expanduser_unset: "k \<noteq> ''HOME'' \<Longrightarrow> expanduser (unsetenv k w) s = expanduser w s"
proof -
  assume "k \<noteq> ''HOME''"
  then have e: "environ (unsetenv k w) ''HOME'' = environ w ''HOME''"
    by (simp add: unsetenv_def)
  have p: "pw_user (unsetenv k w) = pw_user w" "pw_home (unsetenv k w) = pw_home w"
    by (simp_all add: unsetenv_def)
  show ?thesis unfolding expanduser_def e p by (rule refl)
qed

lemma base_string_empty:
  assumes "environ w ''EFB_DATA_PATH'' = Some ''''"
  shows "base_string w = Inr (expanduser w ''~/.ehforwarderbot/'')"
    and "base_string (unsetenv ''EFB_DATA_PATH'' w) = Inr (expanduser w ''~/.ehforwarderbot/'')"
proof -
  from assms show "base_string w = Inr (expanduser w ''~/.ehforwarderbot/'')"
    by (simp add: base_string_def truthy_def)
  have "environ (unsetenv ''EFB_DATA_PATH'' w) ''EFB_DATA_PATH'' = None"
    by (simp add: unsetenv_def)
  then show "base_string (unsetenv ''EFB_DATA_PATH'' w) = Inr (expanduser w ''~/.ehforwarderbot/'')"
    by (simp add: base_string_def truthy_def expanduser_unset)
qed

lemma cache_string_empty:
  assumes "environ w ''EFB_CACHE_PATH'' = Some ''''"
  shows "cache_string c w = Inr (expanduser w
            (join (expanduser w ''~/.ehforwarderbot/.cache/'') [profile w, c, '''']))"
    and "cache_string c (unsetenv ''EFB_CACHE_PATH'' w) = Inr (expanduser w
            (join (expanduser w ''~/.ehforwarderbot/.cache/'') [profile w, c, '''']))"
proof -
  from assms show "cache_string c w = Inr (expanduser w
            (join (expanduser w ''~/.ehforwarderbot/.cache/'') [profile w, c, '''']))"
    by (simp add: cache_string_def truthy_def)
  have "environ (unsetenv ''EFB_CACHE_PATH'' w) ''EFB_CACHE_PATH'' = None"
    "profile (unsetenv ''EFB_CACHE_PATH'' w) = profile w"
    by (simp_all add: unsetenv_def)
  then show "cache_string c (unsetenv ''EFB_CACHE_PATH'' w) = Inr (expanduser w
            (join (expanduser w ''~/.ehforwarderbot/.cache/'') [profile w, c, '''']))"
    by (simp add: cache_string_def truthy_def expanduser_unset)
qed


subsection \<open>A second call\<close>







subsection \<open>What a successful run changes\<close>



subsection \<open>When the path functions return\<close>

lemma mkwalk_succeeds:
  "\<forall>q. nodes w q \<noteq> Some File \<Longrightarrow> nodes w cur = Some Dir \<Longrightarrow> fst (mkwalk cur cs w) = None"
proof (induction cs arbitrary: cur w)
  case Nil
  then show ?case by simp
next
  case (Cons c cs)
  let ?n = "enter cur c"
  show ?case
  proof (cases "nodes w ?n = None")
    case True
    let ?w1 = "mkdir_at ?n (visit cur w)"
    have "\<forall>q. nodes ?w1 q \<noteq> Some File" using Cons.prems(1) by (simp add: mkdir_at_def visit_def)
    moreover have "nodes ?w1 ?n = Some Dir" by (simp add: mkdir_at_def)
    ultimately have "fst (mkwalk ?n cs ?w1) = None" by (rule Cons.IH)
    with True Cons.prems(2) show ?thesis by simp
  next
    case False
    let ?w1 = "visit cur w"
    from False obtain k where k: "nodes w ?n = Some k" by auto
    with Cons.prems(1) have "k = Dir" by (cases k) auto
    with k have dn: "nodes ?w1 ?n = Some Dir" by (simp add: visit_def)
    have "\<forall>q. nodes ?w1 q \<noteq> Some File" using Cons.prems(1) by (simp add: visit_def)
    from this dn have "fst (mkwalk ?n cs ?w1) = None" by (rule Cons.IH)
    with False Cons.prems(2) show ?thesis by auto
  qed
qed

lemma makedirs_return_succeeds:
  assumes "clear w" and "p \<noteq> []"
  shows "fst (makedirs_return p r w) = Inr r"
proof -
  from assms(1) have f: "\<forall>q. nodes w q \<noteq> Some File" and d: "nodes w (start w p) = Some Dir"
    by (simp_all add: clear_def start_def)
  obtain e w' where m: "mkwalk (start w p) (components p) w = (e, w')"
    by (cases "mkwalk (start w p) (components p) w")
  with mkwalk_succeeds [OF f d, of "components p"] have "e = None" by simp
  with m assms(2) show ?thesis
    by (simp add: makedirs_return_def makedirs_def)
qed

lemma clear_grows: "grows w w' \<Longrightarrow> clear w \<Longrightarrow> clear w'"
proof -
  assume g: "grows w w'" and c: "clear w"
  from g have k: "\<forall>q. nodes w q \<noteq> None \<longrightarrow> nodes w' q = nodes w q"
    and m: "\<forall>q. nodes w q = None \<longrightarrow> nodes w' q = None \<or> nodes w' q = Some Dir"
    and s: "cwd w' = cwd w"
    by (simp_all add: grows_def static_def)
  have "\<forall>q. nodes w' q \<noteq> Some File"
  proof
    fix q show "nodes w' q \<noteq> Some File"
    proof (cases "nodes w q = None")
      case True
      with m have "nodes w' q = None \<or> nodes w' q = Some Dir" by simp
      then show ?thesis by auto
    next
      case False
      with k c show ?thesis by (simp add: clear_def)
    qed
  qed
  moreover from c g have "nodes w' [] = Some Dir" "nodes w' (cwd w) = Some Dir"
    by (simp_all add: clear_def grows_keeps)
  ultimately show ?thesis using s by (simp add: clear_def)
qed

text \<open>In a tree without regular files the path functions fail only when the user name is
  needed and not known.\<close>

lemma path_functions_return:
  assumes c: "clear w" and b: "base_string w = Inr b"
  shows "fst (get_base_path w) = Inr b"
    and "fst (get_data_path channel_id w) = Inr (join b [profile w, channel_id, ''''])"
    and "fst (get_custom_channel_path w) = Inr (join b [''plugins''])"
    and "\<exists>p. fst (get_config_path cid ext w) = Inr p"
    and "cache_string channel w = Inr x \<Longrightarrow> fst (get_cache_path channel w) = Inr x"
proof -
  from base_string_endswith [OF b] have nb: "b \<noteq> []" by (rule endswith_nonempty)
  obtain r w1 where g: "get_base_path w = (r, w1)" by (cases "get_base_path w")
  from b have f: "get_base_path w = makedirs_return b b w" by (simp add: get_base_path_form)
  from makedirs_return_succeeds [OF c nb, of b] f show 1: "fst (get_base_path w) = Inr b" by simp
  with g have r: "r = Inr b" by simp
  from get_base_path_grows [of w] g have "grows w w1" by simp
  from this c have c1: "clear w1" by (rule clear_grows)
  from get_base_path_grows [of w] g have st1: "static w1 = static w" by (simp add: grows_static)
  have n2: "join b [profile w, channel_id, ''''] \<noteq> []" using nb by (rule join_nonempty)
  from makedirs_return_succeeds [OF c1 n2] g r
  show "fst (get_data_path channel_id w) = Inr (join b [profile w, channel_id, ''''])"
    by (simp add: get_data_path_form)
  have n3: "join b [''plugins''] \<noteq> []" using nb by (rule join_nonempty)
  from makedirs_return_succeeds [OF c1 n3] g r
  show "fst (get_custom_channel_path w) = Inr (join b [''plugins''])"
    by (simp add: get_custom_channel_path_form)
  show "\<exists>p. fst (get_config_path cid ext w) = Inr p"
  proof (cases "truthy cid")
    case False
    have "join b [profile w1] \<noteq> []" using nb by (rule join_nonempty)
    from makedirs_return_succeeds [OF c1 this] g r False show ?thesis
      by (simp add: get_config_path_form)
  next
    case True
    let ?d = "join b [profile w1, the cid, '''']"
    from b base_string_static [OF st1] have b1: "base_string w1 = Inr b" by simp
    obtain r1 w2 where g1: "get_base_path w1 = (r1, w2)" by (cases "get_base_path w1")
    from b1 have f1: "get_base_path w1 = makedirs_return b b w1" by (simp add: get_base_path_form)
    from makedirs_return_succeeds [OF c1 nb, of b] f1 have "fst (get_base_path w1) = Inr b" by simp
    with g1 have r1: "r1 = Inr b" by simp
    from get_base_path_grows [of w1] g1 have "grows w1 w2" by simp
    from this c1 have c2: "clear w2" by (rule clear_grows)
    have nd: "?d \<noteq> []" using nb by (rule join_nonempty)
    obtain r2 w3 where g2: "get_data_path (the cid) w1 = (r2, w3)"
      by (cases "get_data_path (the cid) w1")
    from g1 r1 have f2: "get_data_path (the cid) w1 = makedirs_return ?d ?d w2"
      by (simp add: get_data_path_form)
    from makedirs_return_succeeds [OF c2 nd, of ?d] f2 have "fst (get_data_path (the cid) w1) = Inr ?d"
      by simp
    with g2 have r2: "r2 = Inr ?d" by simp
    from f2 g2 have "w3 = snd (makedirs_return ?d ?d w2)" by (metis snd_conv)
    with makedirs_return_grows [of w2 ?d ?d] have "grows w2 w3" by simp
    from this c2 have c3: "clear w3" by (rule clear_grows)
    from makedirs_return_succeeds [OF c3 nd] g r g2 r2 True show ?thesis
      by (simp add: get_config_path_form)
  qed
  show "cache_string channel w = Inr x \<Longrightarrow> fst (get_cache_path channel w) = Inr x"
  proof -
    assume x: "cache_string channel w = Inr x"
    from cache_string_endswith [OF x] have "x \<noteq> []" by (rule endswith_nonempty)
    from makedirs_return_succeeds [OF c this, of x] x show ?thesis
      by (simp add: get_cache_path_form)
  qed
qed

lemma base_string_known:
  "truthy (environ w ''EFB_DATA_PATH'') \<longrightarrow> (\<exists>u. getuser w = Inr u) \<Longrightarrow> \<exists>b. base_string w = Inr b"
  by (auto simp: base_string_def)

lemma cache_string_known:
  "truthy (environ w ''EFB_CACHE_PATH'') \<longrightarrow> (\<exists>u. getuser w = Inr u) \<Longrightarrow> \<exists>b. cache_string c w = Inr b"
  by (auto simp: cache_string_def)

lemma get_base_path_returns:
  "clear w \<and> (truthy (environ w ''EFB_DATA_PATH'') \<longrightarrow> (\<exists>u. getuser w = Inr u)) \<longrightarrow>
   (\<exists>p. fst (get_base_path w) = Inr p)"
  using base_string_known [of w] path_functions_return(1) [of w] by blast


lemma get_custom_channel_path_returns:
  "clear w \<and> (truthy (environ w ''EFB_DATA_PATH'') \<longrightarrow> (\<exists>u. getuser w = Inr u)) \<longrightarrow>
   (\<exists>p. fst (get_custom_channel_path w) = Inr p)"
  using base_string_known [of w] path_functions_return(3) [of w] by blast


lemma get_cache_path_returns:
  "clear w \<and> (truthy (environ w ''EFB_CACHE_PATH'') \<longrightarrow> (\<exists>u. getuser w = Inr u)) \<longrightarrow>
   (\<exists>p. fst (get_cache_path channel w) = Inr p)"
proof (intro impI, elim conjE)
  assume c: "clear w" and u: "truthy (environ w ''EFB_CACHE_PATH'') \<longrightarrow> (\<exists>u. getuser w = Inr u)"
  from cache_string_known [OF u, of channel] obtain x where x: "cache_string channel w = Inr x" ..
  from cache_string_endswith [OF x] have "x \<noteq> []" by (rule endswith_nonempty)
  from makedirs_return_succeeds [OF c this, of x] x show "\<exists>p. fst (get_cache_path channel w) = Inr p"
    by (simp add: get_cache_path_form)
qed

lemma clear_alice_world: "clear (alice_world env)"
  by (simp add: clear_def alice_world_def)

section \<open>The claims\<close>


lemma get_base_path_result_value:
  assumes "fst (get_base_path w) = Inr p"
  shows "(\<forall>v. environ w ''EFB_DATA_PATH'' = Some v \<and> v \<noteq> [] \<longrightarrow>
            (\<exists>u. getuser w = Inr u \<and> p = join v [u, ''''] \<and>
               (\<not> endswith_sep v \<and> u \<noteq> [] \<and> \<not> startswith_sep u \<and> \<not> endswith_sep u \<longrightarrow>
                  p = v @ ''/'' @ u @ ''/''))) \<and>
         (environ w ''EFB_DATA_PATH'' = None \<longrightarrow>
            p = expanduser w ''~/.ehforwarderbot/'' \<and>
            (\<forall>h. environ w ''HOME'' = Some h \<longrightarrow> p = rstrip_sep h @ ''/.ehforwarderbot/'')) \<and>
         endswith_sep p"
proof -
  from get_base_path_ok [OF assms] have b: "base_string w = Inr p" by simp
  have 1: "\<forall>v. environ w ''EFB_DATA_PATH'' = Some v \<and> v \<noteq> [] \<longrightarrow>
            (\<exists>u. getuser w = Inr u \<and> p = join v [u, ''''] \<and>
               (\<not> endswith_sep v \<and> u \<noteq> [] \<and> \<not> startswith_sep u \<and> \<not> endswith_sep u \<longrightarrow>
                  p = v @ ''/'' @ u @ ''/''))"
  proof (intro allI impI)
    fix v assume v: "environ w ''EFB_DATA_PATH'' = Some v \<and> v \<noteq> []"
    with b obtain u where u: "getuser w = Inr u" and p: "p = join v [u, '''']"
      by (auto simp: base_string_def truthy_def split: sum.splits)
    have "\<not> endswith_sep v \<and> u \<noteq> [] \<and> \<not> startswith_sep u \<and> \<not> endswith_sep u \<longrightarrow>
            join v [u, ''''] = v @ ''/'' @ u @ ''/''"
      using v by (simp add: join_plain)
    with u p show "\<exists>u. getuser w = Inr u \<and> p = join v [u, ''''] \<and>
               (\<not> endswith_sep v \<and> u \<noteq> [] \<and> \<not> startswith_sep u \<and> \<not> endswith_sep u \<longrightarrow>
                  p = v @ ''/'' @ u @ ''/'')"
      by simp
  qed
  have 2: "environ w ''EFB_DATA_PATH'' = None \<longrightarrow>
            p = expanduser w ''~/.ehforwarderbot/'' \<and>
            (\<forall>h. environ w ''HOME'' = Some h \<longrightarrow> p = rstrip_sep h @ ''/.ehforwarderbot/'')"
  proof
    assume n: "environ w ''EFB_DATA_PATH'' = None"
    with b have p: "p = expanduser w ''~/.ehforwarderbot/''"
      by (simp add: base_string_def truthy_def)
    then show "p = expanduser w ''~/.ehforwarderbot/'' \<and>
            (\<forall>h. environ w ''HOME'' = Some h \<longrightarrow> p = rstrip_sep h @ ''/.ehforwarderbot/'')"
      by (simp add: expanduser_home)
  qed
  from 1 2 base_string_endswith [OF b] show ?thesis by blast
qed

text \<open>
  C1, as amended. Whenever \<^verbatim>\<open>get_base_path\<close> returns a path: if
  \<^verbatim>\<open>EFB_DATA_PATH\<close> is set to a non-empty value, the user name is known and the
  path is \<^verbatim>\<open>os.path.join(value, user, "")\<close>, which is \<^verbatim>\<open>value/user/\<close> when
  the value does not end with a separator and the user name is not empty and has no
  separator at either end; if the variable is absent, the path is the expansion of
  \<^verbatim>\<open>~/.ehforwarderbot/\<close>, which is \<^verbatim>\<open>$HOME\<close> without its trailing
  separators followed by \<^verbatim>\<open>/.ehforwarderbot/\<close> when \<^verbatim>\<open>HOME\<close> is set. In every
  case the path ends with a separator.
  In a directory tree without regular files, with the root and the working directory
  present, the call returns unless the override is in force and the user name is not known.
\<close>

theorem get_base_path_result:
  "(clear w \<and> (truthy (environ w ''EFB_DATA_PATH'') \<longrightarrow> (\<exists>u. getuser w = Inr u)) \<longrightarrow>
      (\<exists>p. fst (get_base_path w) = Inr p)) \<and>
   (fst (get_base_path w) = Inr p \<longrightarrow>
      ((\<forall>v. environ w ''EFB_DATA_PATH'' = Some v \<and> v \<noteq> [] \<longrightarrow>
                (\<exists>u. getuser w = Inr u \<and> p = join v [u, ''''] \<and>
                   (\<not> endswith_sep v \<and> u \<noteq> [] \<and> \<not> startswith_sep u \<and> \<not> endswith_sep u \<longrightarrow>
                      p = v @ ''/'' @ u @ ''/''))) \<and>
             (environ w ''EFB_DATA_PATH'' = None \<longrightarrow>
                p = expanduser w ''~/.ehforwarderbot/'' \<and>
                (\<forall>h. environ w ''HOME'' = Some h \<longrightarrow> p = rstrip_sep h @ ''/.ehforwarderbot/'')) \<and>
             endswith_sep p))"
proof (rule conjI)
  show "clear w \<and> (truthy (environ w ''EFB_DATA_PATH'') \<longrightarrow> (\<exists>u. getuser w = Inr u)) \<longrightarrow>
      (\<exists>p. fst (get_base_path w) = Inr p)"
    by (rule get_base_path_returns)
  show "fst (get_base_path w) = Inr p \<longrightarrow>
      ((\<forall>v. environ w ''EFB_DATA_PATH'' = Some v \<and> v \<noteq> [] \<longrightarrow>
                (\<exists>u. getuser w = Inr u \<and> p = join v [u, ''''] \<and>
                   (\<not> endswith_sep v \<and> u \<noteq> [] \<and> \<not> startswith_sep u \<and> \<not> endswith_sep u \<longrightarrow>
                      p = v @ ''/'' @ u @ ''/''))) \<and>
             (environ w ''EFB_DATA_PATH'' = None \<longrightarrow>
                p = expanduser w ''~/.ehforwarderbot/'' \<and>
                (\<forall>h. environ w ''HOME'' = Some h \<longrightarrow> p = rstrip_sep h @ ''/.ehforwarderbot/'')) \<and>
             endswith_sep p)"
    by (rule impI, erule get_base_path_result_value)
qed

theorem get_base_path_result_witness:
  "clear (alice_world env_scenario) \<and>
   (\<exists>u. getuser (alice_world env_scenario) = Inr u) \<and>
   (\<exists>p. fst (get_base_path (alice_world env_scenario)) = Inr p) \<and>
   fst (get_base_path (alice_world env_scenario)) = Inr ''/tmp/efb/alice/'' \<and>
   environ (alice_world env_scenario) ''EFB_DATA_PATH'' = Some ''/tmp/efb'' \<and>
   (\<exists>u. getuser (alice_world env_scenario) = Inr u \<and>
        ''/tmp/efb/alice/'' = join ''/tmp/efb'' [u, '''']) \<and>
   endswith_sep ''/tmp/efb/alice/'' \<and>
   fst (get_base_path (alice_world env_plain)) = Inr ''/home/alice/.ehforwarderbot/'' \<and>
   environ (alice_world env_plain) ''EFB_DATA_PATH'' = None \<and>
   ''/home/alice/.ehforwarderbot/'' = expanduser (alice_world env_plain) ''~/.ehforwarderbot/''"
proof -
  let ?S = "alice_world env_scenario" and ?P = "alice_world env_plain"
  have h1: "fst (get_base_path ?S) = Inr ''/tmp/efb/alice/''"
    by (simp add: eval_defs)
  have h2: "fst (get_base_path ?P) = Inr ''/home/alice/.ehforwarderbot/''"
    by (simp add: eval_defs)
  have e1: "environ ?S ''EFB_DATA_PATH'' = Some ''/tmp/efb'' \<and> ''/tmp/efb'' \<noteq> []"
    by (simp add: alice_world_def env_scenario_def)
  have e2: "environ ?P ''EFB_DATA_PATH'' = None"
    by (simp add: alice_world_def env_plain_def)
  note t1 = get_base_path_result [THEN conjunct2, THEN mp, OF h1] and t2 = get_base_path_result [THEN conjunct2, THEN mp, OF h2]
  from t1 have "environ ?S ''EFB_DATA_PATH'' = Some ''/tmp/efb'' \<and> ''/tmp/efb'' \<noteq> [] \<longrightarrow>
      (\<exists>u. getuser ?S = Inr u \<and> ''/tmp/efb/alice/'' = join ''/tmp/efb'' [u, ''''] \<and>
         (\<not> endswith_sep ''/tmp/efb'' \<and> u \<noteq> [] \<and> \<not> startswith_sep u \<and> \<not> endswith_sep u \<longrightarrow>
            ''/tmp/efb/alice/'' = ''/tmp/efb'' @ ''/'' @ u @ ''/''))"
    by (rule spec [OF conjunct1])
  with e1 have a: "\<exists>u. getuser ?S = Inr u \<and> ''/tmp/efb/alice/'' = join ''/tmp/efb'' [u, '''']"
    by blast
  from t1 have c: "endswith_sep ''/tmp/efb/alice/''"
    by (rule conjunct2 [OF conjunct2])
  from t2 have "environ ?P ''EFB_DATA_PATH'' = None \<longrightarrow>
      ''/home/alice/.ehforwarderbot/'' = expanduser ?P ''~/.ehforwarderbot/'' \<and>
      (\<forall>h. environ ?P ''HOME'' = Some h \<longrightarrow>
           ''/home/alice/.ehforwarderbot/'' = rstrip_sep h @ ''/.ehforwarderbot/'')"
    by (rule conjunct1 [OF conjunct2])
  with e2 have d: "''/home/alice/.ehforwarderbot/'' = expanduser ?P ''~/.ehforwarderbot/''"
    by blast
  have ca: "clear ?S" by (rule clear_alice_world)
  have ua: "\<exists>u. getuser ?S = Inr u" by (simp add: eval_defs)
  have ra: "\<exists>p. fst (get_base_path ?S) = Inr p"
    by (rule get_base_path_result [THEN conjunct1, THEN mp, OF conjI [OF ca impI [OF ua]]])
  from ca ua ra h1 e1 a c h2 e2 d show ?thesis by blast
qed

text \<open>
  C1 as it is stated fails when the variable is set to the empty string: the path is the
  home-relative default, not the (empty) value joined with the user name.
\<close>

theorem get_base_path_empty_override_counterexample:
  "environ (alice_world env_empty_override) ''EFB_DATA_PATH'' = Some '''' \<and>
   getuser (alice_world env_empty_override) = Inr ''alice'' \<and>
   fst (get_base_path (alice_world env_empty_override)) = Inr ''/home/alice/.ehforwarderbot/'' \<and>
   fst (get_base_path (alice_world env_empty_override)) \<noteq> Inr (join '''' [''alice'', '''']) \<and>
   fst (get_base_path (alice_world env_empty_override)) \<noteq> Inr ('''' @ ''/'' @ ''alice'' @ ''/'')"
  by (simp add: eval_defs)








lemma get_custom_channel_path_result_value:
  assumes "fst (get_custom_channel_path w) = Inr p"
  shows "(\<exists>b. fst (get_base_path w) = Inr b \<and> p = join b [''plugins''] \<and> p = b @ ''plugins'') \<and>
         \<not> endswith_sep p \<and>
         isdir (snd (get_custom_channel_path w)) p \<and>
         (\<forall>h. environ w ''EFB_DATA_PATH'' = None \<and> environ w ''HOME'' = Some h \<longrightarrow>
            p = rstrip_sep h @ ''/.ehforwarderbot/plugins'')"
proof -
  from get_custom_channel_path_ok [OF assms] obtain b where
    fb: "fst (get_base_path w) = Inr b" and p: "p = join b [''plugins'']"
    and i: "isdir (snd (get_custom_channel_path w)) p"
    by blast
  from get_base_path_ok [OF fb] have bs: "base_string w = Inr b" by simp
  from base_string_endswith [OF bs] have eb: "endswith_sep b" .
  with p have q: "p = b @ ''plugins''"
    by (simp add: join_def join_step_def startswith_sep_def)
  then have n: "\<not> endswith_sep p" by (simp add: endswith_sep_def)
  have "\<forall>h. environ w ''EFB_DATA_PATH'' = None \<and> environ w ''HOME'' = Some h \<longrightarrow>
            p = rstrip_sep h @ ''/.ehforwarderbot/plugins''"
  proof (intro allI impI)
    fix h assume a: "environ w ''EFB_DATA_PATH'' = None \<and> environ w ''HOME'' = Some h"
    with bs have "b = expanduser w ''~/.ehforwarderbot/''"
      by (simp add: base_string_def truthy_def)
    with a have "b = rstrip_sep h @ ''/.ehforwarderbot/''"
      by (simp add: expanduser_home)
    with q show "p = rstrip_sep h @ ''/.ehforwarderbot/plugins''" by simp
  qed
  with fb p q n i show ?thesis by blast
qed

text \<open>
  C5, as amended. Whenever \<^verbatim>\<open>get_custom_channel_path\<close> returns a path, it is the
  base path joined with \<^verbatim>\<open>plugins\<close>, that is the base path followed by
  \<^verbatim>\<open>plugins\<close>, with no separator at the end; it is a directory after the call; and
  with \<^verbatim>\<open>EFB_DATA_PATH\<close> absent and \<^verbatim>\<open>HOME\<close> set it is \<^verbatim>\<open>$HOME\<close> without
  its trailing separators followed by \<^verbatim>\<open>/.ehforwarderbot/plugins\<close>.
  In a directory tree without regular files, with the root and the working directory
  present, the call returns unless the override is in force and the user name is not known.
\<close>

theorem get_custom_channel_path_result:
  "(clear w \<and> (truthy (environ w ''EFB_DATA_PATH'') \<longrightarrow> (\<exists>u. getuser w = Inr u)) \<longrightarrow>
      (\<exists>p. fst (get_custom_channel_path w) = Inr p)) \<and>
   (fst (get_custom_channel_path w) = Inr p \<longrightarrow>
      ((\<exists>b. fst (get_base_path w) = Inr b \<and> p = join b [''plugins''] \<and> p = b @ ''plugins'') \<and>
             \<not> endswith_sep p \<and>
             isdir (snd (get_custom_channel_path w)) p \<and>
             (\<forall>h. environ w ''EFB_DATA_PATH'' = None \<and> environ w ''HOME'' = Some h \<longrightarrow>
                p = rstrip_sep h @ ''/.ehforwarderbot/plugins'')))"
proof (rule conjI)
  show "clear w \<and> (truthy (environ w ''EFB_DATA_PATH'') \<longrightarrow> (\<exists>u. getuser w = Inr u)) \<longrightarrow>
      (\<exists>p. fst (get_custom_channel_path w) = Inr p)"
    by (rule get_custom_channel_path_returns)
  show "fst (get_custom_channel_path w) = Inr p \<longrightarrow>
      ((\<exists>b. fst (get_base_path w) = Inr b \<and> p = join b [''plugins''] \<and> p = b @ ''plugins'') \<and>
             \<not> endswith_sep p \<and>
             isdir (snd (get_custom_channel_path w)) p \<and>
             (\<forall>h. environ w ''EFB_DATA_PATH'' = None \<and> environ w ''HOME'' = Some h \<longrightarrow>
                p = rstrip_sep h @ ''/.ehforwarderbot/plugins''))"
    by (rule impI, erule get_custom_channel_path_result_value)
qed

theorem get_custom_channel_path_result_witness:
  "clear (alice_world env_plain) \<and>
   (\<exists>u. getuser (alice_world env_plain) = Inr u) \<and>
   (\<exists>p. fst (get_custom_channel_path (alice_world env_plain)) = Inr p) \<and>
   fst (get_custom_channel_path (alice_world env_plain)) = Inr ''/home/alice/.ehforwarderbot/plugins'' \<and>
   environ (alice_world env_plain) ''EFB_DATA_PATH'' = None \<and>
   environ (alice_world env_plain) ''HOME'' = Some ''/home/alice'' \<and>
   ''/home/alice/.ehforwarderbot/plugins'' = rstrip_sep ''/home/alice'' @ ''/.ehforwarderbot/plugins'' \<and>
   \<not> endswith_sep ''/home/alice/.ehforwarderbot/plugins'' \<and>
   isdir (snd (get_custom_channel_path (alice_world env_plain))) ''/home/alice/.ehforwarderbot/plugins''"
proof -
  let ?P = "alice_world env_plain"
  have h: "fst (get_custom_channel_path ?P) = Inr ''/home/alice/.ehforwarderbot/plugins''"
    by (simp add: eval_defs)
  have e: "environ ?P ''EFB_DATA_PATH'' = None \<and> environ ?P ''HOME'' = Some ''/home/alice''"
    by (simp add: alice_world_def env_plain_def)
  note t = get_custom_channel_path_result [THEN conjunct2, THEN mp, OF h]
  from t e have a: "''/home/alice/.ehforwarderbot/plugins'' = rstrip_sep ''/home/alice'' @ ''/.ehforwarderbot/plugins''"
    by blast
  from t have b: "\<not> endswith_sep ''/home/alice/.ehforwarderbot/plugins''"
    by (rule conjunct1 [OF conjunct2])
  from t have c: "isdir (snd (get_custom_channel_path ?P)) ''/home/alice/.ehforwarderbot/plugins''"
    by (rule conjunct1 [OF conjunct2 [OF conjunct2]])
  have ca: "clear ?P" by (rule clear_alice_world)
  have ua: "\<exists>u. getuser ?P = Inr u" by (simp add: eval_defs)
  have ra: "\<exists>p. fst (get_custom_channel_path ?P) = Inr p"
    by (rule get_custom_channel_path_result [THEN conjunct1, THEN mp, OF conjI [OF ca impI [OF ua]]])
  from ca ua ra h e a b c show ?thesis by blast
qed

text \<open>
  C5 as it is stated fails: with no override the path is
  \<^verbatim>\<open>/home/alice/.ehforwarderbot/plugins\<close>, which does not end with a separator.
\<close>

theorem get_custom_channel_path_counterexample:
  "environ (alice_world env_plain) ''EFB_DATA_PATH'' = None \<and>
   environ (alice_world env_plain) ''EFB_CACHE_PATH'' = None \<and>
   fst (get_custom_channel_path (alice_world env_plain)) = Inr ''/home/alice/.ehforwarderbot/plugins'' \<and>
   fst (get_custom_channel_path (alice_world env_plain)) \<noteq> Inr ''/home/alice/.ehforwarderbot/plugins/'' \<and>
   \<not> endswith_sep ''/home/alice/.ehforwarderbot/plugins''"
  by (simp add: eval_defs)


lemma get_cache_path_result_value:
  assumes "fst (get_cache_path channel w) = Inr p"
  shows "(\<forall>v. environ w ''EFB_CACHE_PATH'' = Some v \<and> v \<noteq> [] \<longrightarrow>
            (\<exists>u. getuser w = Inr u \<and> p = join v [u, profile w, channel, ''''] \<and>
               (\<not> endswith_sep v \<and>
                u \<noteq> [] \<and> \<not> startswith_sep u \<and> \<not> endswith_sep u \<and>
                profile w \<noteq> [] \<and> \<not> startswith_sep (profile w) \<and> \<not> endswith_sep (profile w) \<and>
                channel \<noteq> [] \<and> \<not> startswith_sep channel \<and> \<not> endswith_sep channel \<longrightarrow>
                  p = v @ ''/'' @ u @ ''/'' @ profile w @ ''/'' @ channel @ ''/''))) \<and>
         (environ w ''EFB_CACHE_PATH'' = None \<longrightarrow>
            p = expanduser w
                  (join (expanduser w ''~/.ehforwarderbot/.cache/'') [profile w, channel, '''']) \<and>
            (\<forall>h. environ w ''HOME'' = Some h \<and> take 1 h \<noteq> ''~'' \<longrightarrow>
               p = join (rstrip_sep h @ ''/.ehforwarderbot/.cache/'') [profile w, channel, ''''] \<and>
               (profile w \<noteq> [] \<and> \<not> startswith_sep (profile w) \<and> \<not> endswith_sep (profile w) \<and>
                channel \<noteq> [] \<and> \<not> startswith_sep channel \<and> \<not> endswith_sep channel \<longrightarrow>
                  p = rstrip_sep h @ ''/.ehforwarderbot/.cache/'' @ profile w @ ''/'' @ channel @ ''/''))) \<and>
         endswith_sep p"
proof -
  from get_cache_path_ok [OF assms] have b: "cache_string channel w = Inr p" by simp
  have 1: "\<forall>v. environ w ''EFB_CACHE_PATH'' = Some v \<and> v \<noteq> [] \<longrightarrow>
            (\<exists>u. getuser w = Inr u \<and> p = join v [u, profile w, channel, ''''] \<and>
               (\<not> endswith_sep v \<and>
                u \<noteq> [] \<and> \<not> startswith_sep u \<and> \<not> endswith_sep u \<and>
                profile w \<noteq> [] \<and> \<not> startswith_sep (profile w) \<and> \<not> endswith_sep (profile w) \<and>
                channel \<noteq> [] \<and> \<not> startswith_sep channel \<and> \<not> endswith_sep channel \<longrightarrow>
                  p = v @ ''/'' @ u @ ''/'' @ profile w @ ''/'' @ channel @ ''/''))"
  proof (intro allI impI)
    fix v assume v: "environ w ''EFB_CACHE_PATH'' = Some v \<and> v \<noteq> []"
    with b obtain u where u: "getuser w = Inr u" and p: "p = join v [u, profile w, channel, '''']"
      by (auto simp: cache_string_def truthy_def split: sum.splits)
    have "\<not> endswith_sep v \<and>
                u \<noteq> [] \<and> \<not> startswith_sep u \<and> \<not> endswith_sep u \<and>
                profile w \<noteq> [] \<and> \<not> startswith_sep (profile w) \<and> \<not> endswith_sep (profile w) \<and>
                channel \<noteq> [] \<and> \<not> startswith_sep channel \<and> \<not> endswith_sep channel \<longrightarrow>
            join v [u, profile w, channel, '''']
              = v @ ''/'' @ u @ ''/'' @ profile w @ ''/'' @ channel @ ''/''"
      using v by (simp add: join_plain4)
    with u p show "\<exists>u. getuser w = Inr u \<and> p = join v [u, profile w, channel, ''''] \<and>
               (\<not> endswith_sep v \<and>
                u \<noteq> [] \<and> \<not> startswith_sep u \<and> \<not> endswith_sep u \<and>
                profile w \<noteq> [] \<and> \<not> startswith_sep (profile w) \<and> \<not> endswith_sep (profile w) \<and>
                channel \<noteq> [] \<and> \<not> startswith_sep channel \<and> \<not> endswith_sep channel \<longrightarrow>
                  p = v @ ''/'' @ u @ ''/'' @ profile w @ ''/'' @ channel @ ''/'')"
      by simp
  qed
  have 2: "environ w ''EFB_CACHE_PATH'' = None \<longrightarrow>
            p = expanduser w
                  (join (expanduser w ''~/.ehforwarderbot/.cache/'') [profile w, channel, '''']) \<and>
            (\<forall>h. environ w ''HOME'' = Some h \<and> take 1 h \<noteq> ''~'' \<longrightarrow>
               p = join (rstrip_sep h @ ''/.ehforwarderbot/.cache/'') [profile w, channel, ''''] \<and>
               (profile w \<noteq> [] \<and> \<not> startswith_sep (profile w) \<and> \<not> endswith_sep (profile w) \<and>
                channel \<noteq> [] \<and> \<not> startswith_sep channel \<and> \<not> endswith_sep channel \<longrightarrow>
                  p = rstrip_sep h @ ''/.ehforwarderbot/.cache/'' @ profile w @ ''/'' @ channel @ ''/''))"
  proof
    assume n: "environ w ''EFB_CACHE_PATH'' = None"
    with b have p: "p = expanduser w
                  (join (expanduser w ''~/.ehforwarderbot/.cache/'') [profile w, channel, ''''])"
      by (simp add: cache_string_def truthy_def)
    have "\<forall>h. environ w ''HOME'' = Some h \<and> take 1 h \<noteq> ''~'' \<longrightarrow>
               p = join (rstrip_sep h @ ''/.ehforwarderbot/.cache/'') [profile w, channel, ''''] \<and>
               (profile w \<noteq> [] \<and> \<not> startswith_sep (profile w) \<and> \<not> endswith_sep (profile w) \<and>
                channel \<noteq> [] \<and> \<not> startswith_sep channel \<and> \<not> endswith_sep channel \<longrightarrow>
                  p = rstrip_sep h @ ''/.ehforwarderbot/.cache/'' @ profile w @ ''/'' @ channel @ ''/'')"
    proof (intro allI impI)
      fix h assume h: "environ w ''HOME'' = Some h \<and> take 1 h \<noteq> ''~''"
      let ?a = "rstrip_sep h @ ''/.ehforwarderbot/.cache/''"
      from h p have q: "p = join ?a [profile w, channel, '''']"
        by (simp add: cache_default_home)
      have "endswith_sep ?a" by (simp add: endswith_sep_def)
      then have "profile w \<noteq> [] \<and> \<not> startswith_sep (profile w) \<and> \<not> endswith_sep (profile w) \<and>
                channel \<noteq> [] \<and> \<not> startswith_sep channel \<and> \<not> endswith_sep channel \<longrightarrow>
                join ?a [profile w, channel, ''''] = ?a @ profile w @ ''/'' @ channel @ ''/''"
        by (simp add: join_plain3)
      with q show "p = join (rstrip_sep h @ ''/.ehforwarderbot/.cache/'') [profile w, channel, ''''] \<and>
               (profile w \<noteq> [] \<and> \<not> startswith_sep (profile w) \<and> \<not> endswith_sep (profile w) \<and>
                channel \<noteq> [] \<and> \<not> startswith_sep channel \<and> \<not> endswith_sep channel \<longrightarrow>
                  p = rstrip_sep h @ ''/.ehforwarderbot/.cache/'' @ profile w @ ''/'' @ channel @ ''/'')"
        by simp
    qed
    with p show "p = expanduser w
                  (join (expanduser w ''~/.ehforwarderbot/.cache/'') [profile w, channel, '''']) \<and>
            (\<forall>h. environ w ''HOME'' = Some h \<and> take 1 h \<noteq> ''~'' \<longrightarrow>
               p = join (rstrip_sep h @ ''/.ehforwarderbot/.cache/'') [profile w, channel, ''''] \<and>
               (profile w \<noteq> [] \<and> \<not> startswith_sep (profile w) \<and> \<not> endswith_sep (profile w) \<and>
                channel \<noteq> [] \<and> \<not> startswith_sep channel \<and> \<not> endswith_sep channel \<longrightarrow>
                  p = rstrip_sep h @ ''/.ehforwarderbot/.cache/'' @ profile w @ ''/'' @ channel @ ''/''))"
      by blast
  qed
  from 1 2 cache_string_endswith [OF b] show ?thesis by blast
qed

text \<open>
  C4, as amended. Whenever \<^verbatim>\<open>get_cache_path(channel)\<close> returns a path: if
  \<^verbatim>\<open>EFB_CACHE_PATH\<close> is set to a non-empty value, the user name is known and the
  path is \<^verbatim>\<open>os.path.join(value, user, profile, channel, "")\<close>, which is
  \<^verbatim>\<open>value/user/profile/channel/\<close> when the value does not end with a separator and
  the three names are not empty and have no separator at either end; if the variable is
  absent, the path is the expansion of the expanded \<^verbatim>\<open>~/.ehforwarderbot/.cache/\<close>
  joined with profile, channel and the empty string, which for a \<^verbatim>\<open>HOME\<close> that does
  not begin with a tilde is \<^verbatim>\<open>$HOME\<close> without its trailing separators followed by
  \<^verbatim>\<open>/.ehforwarderbot/.cache/\<close> and joined with the same three, that is
  \<^verbatim>\<open>home/.ehforwarderbot/.cache/profile/channel/\<close> for such names. In every case
  the path ends with a separator.
  In a directory tree without regular files, with the root and the working directory
  present, the call returns unless the override is in force and the user name is not known.
\<close>

theorem get_cache_path_result:
  "(clear w \<and> (truthy (environ w ''EFB_CACHE_PATH'') \<longrightarrow> (\<exists>u. getuser w = Inr u)) \<longrightarrow>
      (\<exists>p. fst (get_cache_path channel w) = Inr p)) \<and>
   (fst (get_cache_path channel w) = Inr p \<longrightarrow>
      ((\<forall>v. environ w ''EFB_CACHE_PATH'' = Some v \<and> v \<noteq> [] \<longrightarrow>
                (\<exists>u. getuser w = Inr u \<and> p = join v [u, profile w, channel, ''''] \<and>
                   (\<not> endswith_sep v \<and>
                    u \<noteq> [] \<and> \<not> startswith_sep u \<and> \<not> endswith_sep u \<and>
                    profile w \<noteq> [] \<and> \<not> startswith_sep (profile w) \<and> \<not> endswith_sep (profile w) \<and>
                    channel \<noteq> [] \<and> \<not> startswith_sep channel \<and> \<not> endswith_sep channel \<longrightarrow>
                      p = v @ ''/'' @ u @ ''/'' @ profile w @ ''/'' @ channel @ ''/''))) \<and>
             (environ w ''EFB_CACHE_PATH'' = None \<longrightarrow>
                p = expanduser w
                      (join (expanduser w ''~/.ehforwarderbot/.cache/'') [profile w, channel, '''']) \<and>
                (\<forall>h. environ w ''HOME'' = Some h \<and> take 1 h \<noteq> ''~'' \<longrightarrow>
                   p = join (rstrip_sep h @ ''/.ehforwarderbot/.cache/'') [profile w, channel, ''''] \<and>
                   (profile w \<noteq> [] \<and> \<not> startswith_sep (profile w) \<and> \<not> endswith_sep (profile w) \<and>
                    channel \<noteq> [] \<and> \<not> startswith_sep channel \<and> \<not> endswith_sep channel \<longrightarrow>
                      p = rstrip_sep h @ ''/.ehforwarderbot/.cache/'' @ profile w @ ''/'' @ channel @ ''/''))) \<and>
             endswith_sep p))"
proof (rule conjI)
  show "clear w \<and> (truthy (environ w ''EFB_CACHE_PATH'') \<longrightarrow> (\<exists>u. getuser w = Inr u)) \<longrightarrow>
      (\<exists>p. fst (get_cache_path channel w) = Inr p)"
    by (rule get_cache_path_returns)
  show "fst (get_cache_path channel w) = Inr p \<longrightarrow>
      ((\<forall>v. environ w ''EFB_CACHE_PATH'' = Some v \<and> v \<noteq> [] \<longrightarrow>
                (\<exists>u. getuser w = Inr u \<and> p = join v [u, profile w, channel, ''''] \<and>
                   (\<not> endswith_sep v \<and>
                    u \<noteq> [] \<and> \<not> startswith_sep u \<and> \<not> endswith_sep u \<and>
                    profile w \<noteq> [] \<and> \<not> startswith_sep (profile w) \<and> \<not> endswith_sep (profile w) \<and>
                    channel \<noteq> [] \<and> \<not> startswith_sep channel \<and> \<not> endswith_sep channel \<longrightarrow>
                      p = v @ ''/'' @ u @ ''/'' @ profile w @ ''/'' @ channel @ ''/''))) \<and>
             (environ w ''EFB_CACHE_PATH'' = None \<longrightarrow>
                p = expanduser w
                      (join (expanduser w ''~/.ehforwarderbot/.cache/'') [profile w, channel, '''']) \<and>
                (\<forall>h. environ w ''HOME'' = Some h \<and> take 1 h \<noteq> ''~'' \<longrightarrow>
                   p = join (rstrip_sep h @ ''/.ehforwarderbot/.cache/'') [profile w, channel, ''''] \<and>
                   (profile w \<noteq> [] \<and> \<not> startswith_sep (profile w) \<and> \<not> endswith_sep (profile w) \<and>
                    channel \<noteq> [] \<and> \<not> startswith_sep channel \<and> \<not> endswith_sep channel \<longrightarrow>
                      p = rstrip_sep h @ ''/.ehforwarderbot/.cache/'' @ profile w @ ''/'' @ channel @ ''/''))) \<and>
             endswith_sep p)"
    by (rule impI, erule get_cache_path_result_value)
qed

theorem get_cache_path_result_witness:
  "clear (alice_world env_scenario) \<and>
   (\<exists>u. getuser (alice_world env_scenario) = Inr u) \<and>
   (\<exists>p. fst (get_cache_path ''irc'' (alice_world env_scenario)) = Inr p) \<and>
   fst (get_cache_path ''irc'' (alice_world env_scenario)) = Inr ''/tmp/cache/alice/default/irc/'' \<and>
   environ (alice_world env_scenario) ''EFB_CACHE_PATH'' = Some ''/tmp/cache'' \<and>
   (\<exists>u. getuser (alice_world env_scenario) = Inr u \<and>
        ''/tmp/cache/alice/default/irc/''
          = join ''/tmp/cache'' [u, profile (alice_world env_scenario), ''irc'', '''']) \<and>
   endswith_sep ''/tmp/cache/alice/default/irc/'' \<and>
   fst (get_cache_path ''irc'' (alice_world env_plain))
     = Inr ''/home/alice/.ehforwarderbot/.cache/default/irc/'' \<and>
   environ (alice_world env_plain) ''EFB_CACHE_PATH'' = None \<and>
   environ (alice_world env_plain) ''HOME'' = Some ''/home/alice'' \<and>
   ''/home/alice/.ehforwarderbot/.cache/default/irc/''
     = join (rstrip_sep ''/home/alice'' @ ''/.ehforwarderbot/.cache/'')
         [profile (alice_world env_plain), ''irc'', '''']"
proof -
  let ?S = "alice_world env_scenario" and ?P = "alice_world env_plain"
  have h1: "fst (get_cache_path ''irc'' ?S) = Inr ''/tmp/cache/alice/default/irc/''"
    by (simp add: eval_defs)
  have h2: "fst (get_cache_path ''irc'' ?P) = Inr ''/home/alice/.ehforwarderbot/.cache/default/irc/''"
    by (simp add: eval_defs)
  have e1: "environ ?S ''EFB_CACHE_PATH'' = Some ''/tmp/cache'' \<and> ''/tmp/cache'' \<noteq> []"
    by (simp add: alice_world_def env_scenario_def)
  have e2: "environ ?P ''EFB_CACHE_PATH'' = None"
    by (simp add: alice_world_def env_plain_def)
  have e3: "environ ?P ''HOME'' = Some ''/home/alice'' \<and> take 1 ''/home/alice'' \<noteq> ''~''"
    by (simp add: alice_world_def env_plain_def)
  note t1 = get_cache_path_result [THEN conjunct2, THEN mp, OF h1] and t2 = get_cache_path_result [THEN conjunct2, THEN mp, OF h2]
  from t1 e1 have a: "\<exists>u. getuser ?S = Inr u \<and>
        ''/tmp/cache/alice/default/irc/'' = join ''/tmp/cache'' [u, profile ?S, ''irc'', '''']"
    by blast
  from t1 have c: "endswith_sep ''/tmp/cache/alice/default/irc/''"
    by (rule conjunct2 [OF conjunct2])
  from t2 e2 e3 have d: "''/home/alice/.ehforwarderbot/.cache/default/irc/''
     = join (rstrip_sep ''/home/alice'' @ ''/.ehforwarderbot/.cache/'') [profile ?P, ''irc'', '''']"
    by blast
  have ca: "clear ?S" by (rule clear_alice_world)
  have ua: "\<exists>u. getuser ?S = Inr u" by (simp add: eval_defs)
  have ra: "\<exists>p. fst (get_cache_path ''irc'' ?S) = Inr p"
    by (rule get_cache_path_result [THEN conjunct1, THEN mp, OF conjI [OF ca impI [OF ua]]])
  from ca ua ra h1 e1 a c h2 e2 e3 d show ?thesis by blast
qed

text \<open>
  C4 as it is stated fails when the variable is set to the empty string: the path is the
  home-relative default, not the (empty) value joined with user, profile and channel.
\<close>

theorem get_cache_path_empty_override_counterexample:
  "environ (alice_world env_empty_override) ''EFB_CACHE_PATH'' = Some '''' \<and>
   getuser (alice_world env_empty_override) = Inr ''alice'' \<and>
   profile (alice_world env_empty_override) = ''default'' \<and>
   fst (get_cache_path ''irc'' (alice_world env_empty_override))
     = Inr ''/home/alice/.ehforwarderbot/.cache/default/irc/'' \<and>
   fst (get_cache_path ''irc'' (alice_world env_empty_override))
     \<noteq> Inr (join '''' [''alice'', ''default'', ''irc'', '''']) \<and>
   fst (get_cache_path ''irc'' (alice_world env_empty_override))
     \<noteq> Inr ('''' @ ''/'' @ ''alice'' @ ''/'' @ ''default'' @ ''/'' @ ''irc'' @ ''/'')"
proof -
  have h: "fst (get_cache_path ''irc'' (alice_world env_empty_override))
     = Inr ''/home/alice/.ehforwarderbot/.cache/default/irc/''"
    by (simp add: eval_defs)
  have e: "environ (alice_world env_empty_override) ''EFB_CACHE_PATH'' = Some '''' \<and>
   getuser (alice_world env_empty_override) = Inr ''alice'' \<and>
   profile (alice_world env_empty_override) = ''default''"
    by (simp add: alice_world_def env_empty_override_def getuser_def)
  have j: "join '''' [''alice'', ''default'', ''irc'', ''''] = ''alice/default/irc/''"
    by (simp add: join_def join_step_def startswith_sep_def endswith_sep_def)
  show ?thesis unfolding h j using e by simp
qed

text \<open>
  C10. When \<^verbatim>\<open>EFB_DATA_PATH\<close> is set to the empty string, \<^verbatim>\<open>get_base_path\<close>
  returns what it returns with the variable removed from the environment, leaves the same
  state behind (up to that variable), and a returned path is the home-relative default;
  the same holds for \<^verbatim>\<open>EFB_CACHE_PATH\<close> and \<^verbatim>\<open>get_cache_path\<close>, for every
  channel.
\<close>

theorem empty_override_as_unset:
  "(environ w ''EFB_DATA_PATH'' = Some '''' \<longrightarrow>
      fst (get_base_path w) = fst (get_base_path (unsetenv ''EFB_DATA_PATH'' w)) \<and>
      unsetenv ''EFB_DATA_PATH'' (snd (get_base_path w))
        = snd (get_base_path (unsetenv ''EFB_DATA_PATH'' w)) \<and>
      (\<forall>p. fst (get_base_path w) = Inr p \<longrightarrow> p = expanduser w ''~/.ehforwarderbot/'')) \<and>
   (environ w ''EFB_CACHE_PATH'' = Some '''' \<longrightarrow>
      fst (get_cache_path channel w) = fst (get_cache_path channel (unsetenv ''EFB_CACHE_PATH'' w)) \<and>
      unsetenv ''EFB_CACHE_PATH'' (snd (get_cache_path channel w))
        = snd (get_cache_path channel (unsetenv ''EFB_CACHE_PATH'' w)) \<and>
      (\<forall>p. fst (get_cache_path channel w) = Inr p \<longrightarrow>
         p = expanduser w
               (join (expanduser w ''~/.ehforwarderbot/.cache/'') [profile w, channel, ''''])))"
proof (intro conjI impI)
  assume a: "environ w ''EFB_DATA_PATH'' = Some ''''"
  let ?d = "expanduser w ''~/.ehforwarderbot/''"
  from base_string_empty [OF a]
  have f: "get_base_path w = makedirs_return ?d ?d w"
    and g: "get_base_path (unsetenv ''EFB_DATA_PATH'' w)
              = makedirs_return ?d ?d (unsetenv ''EFB_DATA_PATH'' w)"
    by (simp_all add: get_base_path_form)
  show "fst (get_base_path w) = fst (get_base_path (unsetenv ''EFB_DATA_PATH'' w))"
    unfolding f g by (simp add: unsetenv_def makedirs_return_environ)
  show "unsetenv ''EFB_DATA_PATH'' (snd (get_base_path w))
        = snd (get_base_path (unsetenv ''EFB_DATA_PATH'' w))"
    unfolding f g
    by (simp add: unsetenv_def makedirs_return_environ makedirs_return_keeps_environ)
  show "\<forall>p. fst (get_base_path w) = Inr p \<longrightarrow> p = ?d"
    using makedirs_return_ok [of ?d ?d w] unfolding f by blast
next
  assume a: "environ w ''EFB_CACHE_PATH'' = Some ''''"
  let ?d = "expanduser w (join (expanduser w ''~/.ehforwarderbot/.cache/'') [profile w, channel, ''''])"
  from cache_string_empty [OF a, of channel]
  have f: "get_cache_path channel w = makedirs_return ?d ?d w"
    and g: "get_cache_path channel (unsetenv ''EFB_CACHE_PATH'' w)
              = makedirs_return ?d ?d (unsetenv ''EFB_CACHE_PATH'' w)"
    by (simp_all add: get_cache_path_form)
  show "fst (get_cache_path channel w) = fst (get_cache_path channel (unsetenv ''EFB_CACHE_PATH'' w))"
    unfolding f g by (simp add: unsetenv_def makedirs_return_environ)
  show "unsetenv ''EFB_CACHE_PATH'' (snd (get_cache_path channel w))
        = snd (get_cache_path channel (unsetenv ''EFB_CACHE_PATH'' w))"
    unfolding f g
    by (simp add: unsetenv_def makedirs_return_environ makedirs_return_keeps_environ)
  show "\<forall>p. fst (get_cache_path channel w) = Inr p \<longrightarrow> p = ?d"
    using makedirs_return_ok [of ?d ?d w] unfolding f by blast
qed

theorem empty_override_as_unset_witness:
  "environ (alice_world env_empty_override) ''EFB_DATA_PATH'' = Some '''' \<and>
   environ (alice_world env_empty_override) ''EFB_CACHE_PATH'' = Some '''' \<and>
   fst (get_base_path (alice_world env_empty_override)) = Inr ''/home/alice/.ehforwarderbot/'' \<and>
   fst (get_base_path (unsetenv ''EFB_DATA_PATH'' (alice_world env_empty_override)))
     = Inr ''/home/alice/.ehforwarderbot/'' \<and>
   fst (get_cache_path ''irc'' (alice_world env_empty_override))
     = Inr ''/home/alice/.ehforwarderbot/.cache/default/irc/'' \<and>
   fst (get_cache_path ''irc'' (unsetenv ''EFB_CACHE_PATH'' (alice_world env_empty_override)))
     = Inr ''/home/alice/.ehforwarderbot/.cache/default/irc/''"
proof -
  let ?E = "alice_world env_empty_override"
  have e1: "environ ?E ''EFB_DATA_PATH'' = Some ''''"
    by (simp add: alice_world_def env_empty_override_def)
  have e2: "environ ?E ''EFB_CACHE_PATH'' = Some ''''"
    by (simp add: alice_world_def env_empty_override_def)
  have h1: "fst (get_base_path ?E) = Inr ''/home/alice/.ehforwarderbot/''"
    by (simp add: eval_defs)
  have h2: "fst (get_cache_path ''irc'' ?E) = Inr ''/home/alice/.ehforwarderbot/.cache/default/irc/''"
    by (simp add: eval_defs)
  note t = empty_override_as_unset [of ?E "''irc''"]
  from t e1 have "fst (get_base_path ?E) = fst (get_base_path (unsetenv ''EFB_DATA_PATH'' ?E))"
    by blast
  with h1 have a: "fst (get_base_path (unsetenv ''EFB_DATA_PATH'' ?E)) = Inr ''/home/alice/.ehforwarderbot/''"
    by simp
  from t e2 have "fst (get_cache_path ''irc'' ?E)
      = fst (get_cache_path ''irc'' (unsetenv ''EFB_CACHE_PATH'' ?E))"
    by blast
  with h2 have b: "fst (get_cache_path ''irc'' (unsetenv ''EFB_CACHE_PATH'' ?E))
      = Inr ''/home/alice/.ehforwarderbot/.cache/default/irc/''"
    by simp
  from e1 e2 h1 h2 a b show ?thesis by blast
qed






text \<open>
  C7. \<^verbatim>\<open>Emoji.get_source_emoji\<close> maps the members User, Group and System to the user,
  group and system symbols, and every other value to the unknown symbol; the four symbols
  are pairwise distinct, so none of the three is the unknown one. The function has no
  failing branch.
\<close>

theorem get_source_emoji_total:
  "get_source_emoji (Member User) = USER_EMOJI \<and>
   get_source_emoji (Member Group) = GROUP_EMOJI \<and>
   get_source_emoji (Member System) = SYSTEM_EMOJI \<and>
   get_source_emoji (Other x) = UNKNOWN_EMOJI \<and>
   distinct [USER_EMOJI, GROUP_EMOJI, SYSTEM_EMOJI, UNKNOWN_EMOJI] \<and>
   get_source_emoji t \<in> {USER_EMOJI, GROUP_EMOJI, SYSTEM_EMOJI, UNKNOWN_EMOJI}"
  by (simp add: get_source_emoji_def USER_EMOJI_def GROUP_EMOJI_def SYSTEM_EMOJI_def
      UNKNOWN_EMOJI_def)


end
